theory Spec2Isabelle
  imports Main "HOL-Library.Sublist"
begin

section \<open>Strings and fragments\<close>

text \<open>
  A JavaScript string is a sequence of UTF-16 code units, and \<open>s.length\<close> counts code
  units. Code units are modelled as natural numbers; \<open>js\<close> writes an ASCII literal.
  Elements and text nodes of the parsed document are referred to by their path from
  \<open>doc.body\<close> (the list of child indices), which stands for the object reference the
  JavaScript keeps.
\<close>

type_synonym jsstring = "nat list"
type_synonym path = "nat list"

definition js :: "string \<Rightarrow> jsstring" where
  "js s = map of_char s"

text \<open>
  The objects pushed onto \<open>paragraphs\<close> in \<open>translateWithZhipuAI\<close>. A field the object
  literal leaves out (\<open>textNode\<close>, \<open>translatedText\<close>) is \<open>undefined\<close>: \<open>None\<close>, as is a
  \<open>null\<close>; \<open>isInline\<close> left out is falsy.
\<close>

record fragment =
  element :: path
  originalText :: jsstring
  rawText :: jsstring
  index :: nat
  skipReason :: "jsstring option"
  textNode :: "path option"
  isInline :: bool
  translatedText :: "jsstring option"

section \<open>The batch grouper\<close>

record group =
  paragraphs :: "fragment list"
  combinedText :: jsstring
  count :: nat

definition TARGET_MIN_LENGTH :: nat where
  "TARGET_MIN_LENGTH = 300"

definition TARGET_MAX_LENGTH :: nat where
  "TARGET_MAX_LENGTH = 500"

text \<open>\<open>xs.join(sep)\<close> on an array of strings.\<close>

fun js_join :: "jsstring \<Rightarrow> jsstring list \<Rightarrow> jsstring" where
  "js_join sep [] = []"
| "js_join sep [x] = x"
| "js_join sep (x # y # ys) = x @ sep @ js_join sep (y # ys)"

text \<open>
  The object pushed when the running batch is flushed:
  \<open>{paragraphs: currentBatch, combinedText: currentBatch.map(p => p.originalText).join('\n\n'),
  count: currentBatch.length}\<close>.
\<close>

definition flush_batch :: "fragment list \<Rightarrow> group" where
  "flush_batch currentBatch =
     \<lparr>paragraphs = currentBatch,
      combinedText = js_join [10, 10] (map originalText currentBatch),
      count = length currentBatch\<rparr>"

text \<open>
  The grouping loop \<open>for (let i = 0; i < paragraphs.length; i++)\<close> with its three
  variables \<open>groupedParagraphs\<close>, \<open>currentBatch\<close>, \<open>currentLength\<close>, and the flush of
  the remainder after the loop.
\<close>

fun group_loop ::
  "fragment list \<Rightarrow> group list \<Rightarrow> fragment list \<Rightarrow> nat \<Rightarrow> group list" where
  "group_loop [] groupedParagraphs currentBatch currentLength =
     (if length currentBatch > 0 then groupedParagraphs @ [flush_batch currentBatch]
      else groupedParagraphs)"
| "group_loop (para # rest) groupedParagraphs currentBatch currentLength =
     (let textLength = length (originalText para) in
      if textLength > TARGET_MAX_LENGTH then
        (if length currentBatch > 0 then
           group_loop rest
             (groupedParagraphs @ [flush_batch currentBatch] @
                [\<lparr>paragraphs = [para], combinedText = originalText para, count = 1\<rparr>])
             [] 0
         else
           group_loop rest
             (groupedParagraphs @
                [\<lparr>paragraphs = [para], combinedText = originalText para, count = 1\<rparr>])
             currentBatch currentLength)
      else
        (let currentBatch' = currentBatch @ [para];
             currentLength' = currentLength + textLength in
         if currentLength' \<ge> TARGET_MIN_LENGTH \<or> length currentBatch' \<ge> 8 then
           group_loop rest (groupedParagraphs @ [flush_batch currentBatch']) [] 0
         else
           group_loop rest groupedParagraphs currentBatch' currentLength'))"

definition group_paragraphs :: "fragment list \<Rightarrow> group list" where
  "group_paragraphs ps = group_loop ps [] [] 0"

text \<open>The two shapes a batch of the grouper has.\<close>

definition oversized_singleton :: "group \<Rightarrow> bool" where
  "oversized_singleton g =
     (case paragraphs g of
        [p] \<Rightarrow> length (originalText p) > TARGET_MAX_LENGTH \<and> combinedText g = originalText p
      | _ \<Rightarrow> False)"

definition accumulated_batch :: "group \<Rightarrow> bool" where
  "accumulated_batch g =
     (0 < length (paragraphs g) \<and> length (paragraphs g) \<le> 8 \<and>
      list_all (\<lambda>p. length (originalText p) \<le> TARGET_MAX_LENGTH) (paragraphs g) \<and>
      sum_list (map (\<lambda>p. length (originalText p)) (butlast (paragraphs g))) < TARGET_MIN_LENGTH \<and>
      sum_list (map (\<lambda>p. length (originalText p)) (paragraphs g))
        < TARGET_MIN_LENGTH + TARGET_MAX_LENGTH \<and>
      length (combinedText g) \<le> TARGET_MIN_LENGTH + TARGET_MAX_LENGTH + 13)"

text \<open>A fragment of the given length, for concrete inputs.\<close>

definition para_of :: "nat \<Rightarrow> jsstring \<Rightarrow> fragment" where
  "para_of i t =
     \<lparr>element = [i], originalText = t, rawText = t, index = i, skipReason = None,
      textNode = None, isInline = False, translatedText = None\<rparr>"

text \<open>
  The loop invariant: \<open>currentLength\<close> is the summed length of \<open>currentBatch\<close>, below
  the soft minimum; fewer than eight fragments are waiting, none of them oversized.
\<close>

definition cur_ok :: "fragment list \<Rightarrow> nat \<Rightarrow> bool" where
  "cur_ok cur len =
     (len = sum_list (map (\<lambda>p. length (originalText p)) cur) \<and>
      len < TARGET_MIN_LENGTH \<and> length cur < 8 \<and>
      list_all (\<lambda>p. length (originalText p) \<le> TARGET_MAX_LENGTH) cur)"

definition batch_ok :: "group \<Rightarrow> bool" where
  "batch_ok g = (oversized_singleton g \<or> accumulated_batch g)"

section \<open>JavaScript string helpers\<close>

text \<open>\<open>String(n)\<close> for a non-negative integer, as template literals print numbers.\<close>

fun show_nat :: "nat \<Rightarrow> jsstring" where
  "show_nat n = (if n < 10 then [48 + n] else show_nat (n div 10) @ [48 + n mod 10])"

declare show_nat.simps [simp del]

text \<open>
  The code units \<open>String.prototype.trim\<close> removes and the regular expression class
  \<open>\s\<close> matches: ECMAScript's WhiteSpace and LineTerminator.
\<close>

definition is_js_space :: "nat \<Rightarrow> bool" where
  "is_js_space c =
     (c = 9 \<or> c = 10 \<or> c = 11 \<or> c = 12 \<or> c = 13 \<or> c = 32 \<or> c = 160 \<or> c = 5760 \<or>
      (8192 \<le> c \<and> c \<le> 8202) \<or> c = 8232 \<or> c = 8233 \<or> c = 8239 \<or> c = 8287 \<or>
      c = 12288 \<or> c = 65279)"

definition js_trim :: "jsstring \<Rightarrow> jsstring" where
  "js_trim s = rev (dropWhile is_js_space (rev (dropWhile is_js_space s)))"

section \<open>The translation cache\<close>

text \<open>
  \<open>translationCache\<close> is a \<open>Map\<close>: its entries are kept in insertion order, \<open>set\<close> on
  a key already present replaces the value in place, and \<open>keys().next().value\<close> is the
  oldest key.
\<close>

type_synonym cache = "(jsstring \<times> jsstring) list"

definition MAX_CACHE_SIZE :: nat where
  "MAX_CACHE_SIZE = 1000"

definition getCacheKey :: "jsstring \<Rightarrow> jsstring \<Rightarrow> jsstring \<Rightarrow> jsstring" where
  "getCacheKey text sourceLang targetLang =
     (let prefix = take 100 text in
      sourceLang @ [45] @ targetLang @ [45] @ show_nat (length prefix) @ [45] @
      show_nat (length text) @ [45] @ take 20 prefix)"

fun map_set :: "jsstring \<Rightarrow> jsstring \<Rightarrow> cache \<Rightarrow> cache" where
  "map_set k v [] = [(k, v)]"
| "map_set k v ((k', v') # rest) =
     (if k' = k then (k, v) # rest else (k', v') # map_set k v rest)"

definition addToCache :: "jsstring \<Rightarrow> jsstring \<Rightarrow> jsstring \<Rightarrow> jsstring \<Rightarrow> cache \<Rightarrow> cache" where
  "addToCache text sourceLang targetLang result translationCache =
     (let evicted = (if length translationCache \<ge> MAX_CACHE_SIZE then tl translationCache
                     else translationCache)
      in map_set (getCacheKey text sourceLang targetLang) result evicted)"

definition getFromCache :: "jsstring \<Rightarrow> jsstring \<Rightarrow> jsstring \<Rightarrow> cache \<Rightarrow> jsstring option" where
  "getFromCache text sourceLang targetLang translationCache =
     map_of translationCache (getCacheKey text sourceLang targetLang)"

section \<open>Backend requests\<close>

text \<open>
  What one \<open>fetch\<close> of a backend can come to. \<open>Rejected m\<close>: the promise rejects with an
  error of message \<open>m\<close> (network failure, or the abort of the request's controller).
  Otherwise a response with its status, its status text, the body read as an error and
  the body read as a completion. As an error the body is \<open>JsonError\<close> with \<open>error.message\<close>
  if it parses as JSON (\<open>None\<close> when the field is absent), \<open>JsonNull\<close> with the body's
  text if it parses as the JSON value \<open>null\<close>, on which reading \<open>.error\<close> throws, and
  \<open>RawError\<close> with the text if it does not parse. As a completion it is \<open>Malformed m\<close>
  when reading it throws an error of message \<open>m\<close>, else the completion's or the custom
  endpoint's text field, \<open>None\<close> when it is absent.
\<close>

datatype error_body = JsonError "jsstring option" | JsonNull jsstring | RawError jsstring

datatype completion_body = Malformed jsstring | Content "jsstring option"

record http_response =
  status :: nat
  statusText :: jsstring
  errorBody :: error_body
  completion :: completion_body

datatype fetch_outcome = Rejected jsstring | Response http_response

definition response_ok :: "http_response \<Rightarrow> bool" where
  "response_ok r = (200 \<le> status r \<and> status r \<le> 299)"

datatype backend = Zhipu | OpenRouter | Custom

datatype request_kind = BatchRequest | RetryRequest

text \<open>
  The delay, in milliseconds, of the \<open>setTimeout(() => controller.abort(), ...)\<close> set up
  before the \<open>fetch\<close> of each request; \<open>None\<close> where \<open>fetch\<close> is called without a
  signal. \<open>translateWithCustomAPI\<close> makes one kind of request only.
\<close>

fun abort_timeout :: "backend \<Rightarrow> request_kind \<Rightarrow> nat option" where
  "abort_timeout Zhipu BatchRequest = Some 120000"
| "abort_timeout Zhipu RetryRequest = Some 60000"
| "abort_timeout OpenRouter BatchRequest = Some 120000"
| "abort_timeout OpenRouter RetryRequest = Some 60000"
| "abort_timeout Custom _ = None"

text \<open>The messages of the errors thrown, as code units.\<close>

definition zhipu_401_message :: jsstring where
  "zhipu_401_message =
     [26234, 35889, 65, 73, 32, 65, 80, 73, 32, 75, 101, 121, 32, 26080, 25928, 25110, 24050,
      36807, 26399, 65292, 35831, 26816, 26597, 24744, 30340, 65, 80, 73, 32, 75, 101, 121,
      35774, 32622]"

definition openrouter_401_message :: jsstring where
  "openrouter_401_message =
     [79, 112, 101, 110, 82, 111, 117, 116, 101, 114, 32, 65, 80, 73, 32, 75, 101, 121, 32,
      26080, 25928, 25110, 24050, 36807, 26399, 65292, 35831, 26816, 26597, 24744, 30340,
      65, 80, 73, 32, 75, 101, 121, 35774, 32622]"

definition api_call_failed :: jsstring where
  "api_call_failed = [65, 80, 73, 32, 35843, 29992, 22833, 36133, 58, 32]"

definition empty_response_message :: jsstring where
  "empty_response_message = [65, 80, 73, 32, 36820, 22238, 20102, 31354, 21709, 24212]"

definition bad_format_message :: jsstring where
  "bad_format_message =
     [65, 80, 73, 32, 36820, 22238, 25968, 25454, 26684, 24335, 19981, 27491, 30830]"

definition custom_config_message :: jsstring where
  "custom_config_message = [35831, 37197, 32622, 32, 65, 80, 73, 32, 31471, 28857, 21644, 23494, 38053]"

text \<open>
  The message of the \<open>TypeError\<close> thrown when \<open>.error\<close> is read from \<open>null\<close>, in the
  wording of V8.
\<close>

definition null_error_message :: jsstring where
  "null_error_message =
     js ''Cannot read properties of null (reading '' @ [39] @ js ''error'' @ [39] @ js '')''"

text \<open>\<open>a || b\<close> on an optional string: the empty string and \<open>undefined\<close> are falsy.\<close>

definition js_or :: "jsstring option \<Rightarrow> jsstring \<Rightarrow> jsstring" where
  "js_or a b = (case a of None \<Rightarrow> b | Some x \<Rightarrow> if x = [] then b else x)"

text \<open>
  The request of one attempt in \<open>translateWithZhipuAI\<close>, from the \<open>fetch\<close> to the check
  of the completion: \<open>Inl m\<close> is an error of message \<open>m\<close> thrown inside the \<open>try\<close>,
  \<open>Inr t\<close> the trimmed completion.
\<close>

definition zhipu_request :: "fetch_outcome \<Rightarrow> jsstring + jsstring" where
  "zhipu_request outcome =
     (case outcome of
        Rejected m \<Rightarrow> Inl m
      | Response r \<Rightarrow>
          if \<not> response_ok r then
            (if status r = 401 then Inl zhipu_401_message
             else
               (case errorBody r of
                  JsonNull t \<Rightarrow> Inl null_error_message
                | JsonError m \<Rightarrow>
                    Inl (api_call_failed @ show_nat (status r) @ [32, 45, 32] @
                         js_or m (statusText r))
                | RawError t \<Rightarrow>
                    Inl (api_call_failed @ show_nat (status r) @ [32, 45, 32] @
                         statusText r)))
          else
            (case completion r of
               Malformed m \<Rightarrow> Inl m
             | Content c \<Rightarrow>
                 (case map_option js_trim c of
                    None \<Rightarrow> Inl empty_response_message
                  | Some t \<Rightarrow> if t = [] then Inl empty_response_message else Inr t)))"

text \<open>The same in \<open>translateWithOpenRouter\<close>.\<close>

definition openrouter_request :: "fetch_outcome \<Rightarrow> jsstring + jsstring" where
  "openrouter_request outcome =
     (case outcome of
        Rejected m \<Rightarrow> Inl m
      | Response r \<Rightarrow>
          if \<not> response_ok r then
            (if status r = 401 then Inl openrouter_401_message
             else Inl (api_call_failed @ show_nat (status r) @
                       (case errorBody r of
                          JsonError m \<Rightarrow> (if js_or m [] = [] then [] else [32, 45, 32] @ js_or m [])
                        | JsonNull t \<Rightarrow> [32, 45, 32] @ t
                        | RawError t \<Rightarrow> [32, 45, 32] @ t)))
          else
            (case completion r of
               Malformed m \<Rightarrow> Inl m
             | Content c \<Rightarrow>
                 (if js_or c [] = [] then Inl bad_format_message
                  else Inr (js_trim (js_or c [])))))"

text \<open>
  \<open>translateWithCustomAPI\<close>: the configuration check throws to the caller; every error
  inside the \<open>try\<close> is caught, logged, and answered with the input text.
\<close>

definition translateWithCustomAPI ::
  "jsstring \<Rightarrow> jsstring \<Rightarrow> jsstring \<Rightarrow> fetch_outcome \<Rightarrow> jsstring + jsstring" where
  "translateWithCustomAPI endpoint apiKey text outcome =
     (if endpoint = [] \<or> apiKey = [] then Inl custom_config_message
      else
        (case outcome of
           Rejected m \<Rightarrow> Inr text
         | Response r \<Rightarrow>
             if \<not> response_ok r then Inr text
             else
               (case completion r of
                  Malformed m \<Rightarrow> Inr text
                | Content c \<Rightarrow> Inr (js_or c text))))"

section \<open>The retry loop\<close>

text \<open>
  \<open>while (retries < maxRetries) { try { ... return success } catch (error) { retries++;
  if (retries >= maxRetries) return failure; await delay(backoff) } }\<close>, followed by
  \<open>return {success: false, error: 'Max retries exceeded'}\<close>. The \<open>try\<close> block of the
  attempt made when \<open>retries = k\<close> is \<open>attempt k\<close>: \<open>Inl m\<close> when it throws an error of
  message \<open>m\<close>, \<open>Inr r\<close> when it returns. The loop's outcome records the delays waited, in
  order, and the number of attempts made.
\<close>

definition maxRetries :: nat where
  "maxRetries = 3"

datatype 'r batch_result = Success 'r | Failure jsstring

record 'r dispatch =
  result :: "'r batch_result"
  delays :: "nat list"
  attempts :: nat

definition zhipu_backoff :: "nat \<Rightarrow> nat" where
  "zhipu_backoff retries = min (500 * 2 ^ (retries - 1)) 2000"

definition openrouter_backoff :: "nat \<Rightarrow> nat" where
  "openrouter_backoff retries = 1000 * retries"

definition max_retries_exceeded :: jsstring where
  "max_retries_exceeded = js ''Max retries exceeded''"

function retry_loop ::
  "(nat \<Rightarrow> nat) \<Rightarrow> (nat \<Rightarrow> jsstring + 'r) \<Rightarrow> nat \<Rightarrow> nat list \<Rightarrow> nat \<Rightarrow> 'r dispatch" where
  "retry_loop backoff attempt retries waited made =
     (if retries < maxRetries then
        (case attempt retries of
           Inr r \<Rightarrow> \<lparr>result = Success r, delays = waited, attempts = made + 1\<rparr>
         | Inl m \<Rightarrow>
             if retries + 1 \<ge> maxRetries
             then \<lparr>result = Failure m, delays = waited, attempts = made + 1\<rparr>
             else retry_loop backoff attempt (retries + 1)
                    (waited @ [backoff (retries + 1)]) (made + 1))
      else \<lparr>result = Failure max_retries_exceeded, delays = waited, attempts = made\<rparr>)"
  by pat_completeness auto
termination
  by (relation "measure (\<lambda>(backoff, attempt, retries, waited, made). maxRetries - retries)") auto

declare retry_loop.simps [simp del]

definition zhipu_dispatch :: "(nat \<Rightarrow> jsstring + 'r) \<Rightarrow> 'r dispatch" where
  "zhipu_dispatch attempt = retry_loop zhipu_backoff attempt 0 [] 0"

definition openrouter_dispatch :: "(nat \<Rightarrow> jsstring + 'r) \<Rightarrow> 'r dispatch" where
  "openrouter_dispatch attempt = retry_loop openrouter_backoff attempt 0 [] 0"

text \<open>Concrete responses, for the scenarios below.\<close>

definition unauthorized :: http_response where
  "unauthorized = \<lparr>status = 401, statusText = js ''Unauthorized'',
     errorBody = RawError [], completion = Malformed []\<rparr>"

definition timeout_twice_then :: "jsstring \<Rightarrow> nat \<Rightarrow> fetch_outcome" where
  "timeout_twice_then t k =
     (if k < 2 then Rejected (js ''The user aborted a request.'')
      else Response \<lparr>status = 200, statusText = js ''OK'', errorBody = RawError [],
             completion = Content (Some t)\<rparr>)"

section \<open>The response reconciler\<close>

text \<open>
  \<open>s.split(/\n\n+/)\<close>: the separators are the maximal runs of two or more line feeds; a
  single line feed stays in its piece.
\<close>

function split_double_newline :: "jsstring \<Rightarrow> jsstring \<Rightarrow> jsstring list" where
  "split_double_newline piece [] = [piece]"
| "split_double_newline piece (c # cs) =
     (if c = 10 \<and> (case cs of [] \<Rightarrow> False | d # _ \<Rightarrow> d = 10)
      then piece # split_double_newline [] (dropWhile (\<lambda>x. x = 10) cs)
      else split_double_newline (piece @ [c]) cs)"
  by pat_completeness auto
termination
  by (relation "measure (\<lambda>(piece, s). length s)")
     (auto simp: less_Suc_eq_le length_dropWhile_le)

text \<open>\<open>s.split(/\n/)\<close>.\<close>

fun split_newline :: "jsstring \<Rightarrow> jsstring \<Rightarrow> jsstring list" where
  "split_newline piece [] = [piece]"
| "split_newline piece (c # cs) =
     (if c = 10 then piece # split_newline [] cs else split_newline (piece @ [c]) cs)"

text \<open>\<open>.map(line => line.trim()).filter(line => line)\<close>\<close>

definition trimmed_lines :: "jsstring list \<Rightarrow> jsstring list" where
  "trimmed_lines pieces = filter (\<lambda>line. line \<noteq> []) (map js_trim pieces)"

text \<open>
  The residual paragraph markers: \<open>match_marker s\<close> is what follows a match of
  \<open>\[P\d+\]\<close> at the start of \<open>s\<close>; \<open>strip_markers\<close> is
  \<open>replace(/\[P\d+\]\s*/g, '')\<close> and \<open>strip_leading_marker\<close> is
  \<open>replace(/^\[P\d+\]/, '')\<close>.
\<close>

definition is_digit :: "nat \<Rightarrow> bool" where
  "is_digit c = (48 \<le> c \<and> c \<le> 57)"

definition match_marker :: "jsstring \<Rightarrow> jsstring option" where
  "match_marker s =
     (case s of
        a # b # rest \<Rightarrow>
          if a = 91 \<and> b = 80 \<and> takeWhile is_digit rest \<noteq> [] then
            (case dropWhile is_digit rest of
               c # after \<Rightarrow> if c = 93 then Some after else None
             | [] \<Rightarrow> None)
          else None
      | _ \<Rightarrow> None)"

lemma match_marker_shorter: "match_marker s = Some r \<Longrightarrow> length r < length s"
proof -
  assume a: "match_marker s = Some r"
  then obtain x y rest where s: "s = x # y # rest"
    by (cases s; cases "tl s") (auto simp: match_marker_def)
  from a s obtain c where "dropWhile is_digit rest = c # r"
    by (auto simp: match_marker_def split: if_splits list.splits)
  then have "length r < length (dropWhile is_digit rest)" by simp
  also have "\<dots> \<le> length rest" by (rule length_dropWhile_le)
  finally show ?thesis using s by simp
qed

function strip_markers :: "jsstring \<Rightarrow> jsstring" where
  "strip_markers [] = []"
| "strip_markers (c # cs) =
     (case match_marker (c # cs) of
        Some after \<Rightarrow> strip_markers (dropWhile is_js_space after)
      | None \<Rightarrow> c # strip_markers cs)"
  by pat_completeness auto
termination
proof (relation "measure length")
  show "wf (measure length)" by simp
next
  fix c :: nat and cs x2 :: jsstring
  assume m: "match_marker (c # cs) = Some x2"
  have "length (dropWhile is_js_space x2) \<le> length x2" by (rule length_dropWhile_le)
  with match_marker_shorter [OF m]
  show "(dropWhile is_js_space x2, c # cs) \<in> measure length" by simp
next
  fix c :: nat and cs :: jsstring
  show "(cs, c # cs) \<in> measure length" by simp
qed

definition strip_leading_marker :: "jsstring \<Rightarrow> jsstring" where
  "strip_leading_marker s = (case match_marker s of Some after \<Rightarrow> after | None \<Rightarrow> s)"

definition clean_markers :: "jsstring \<Rightarrow> jsstring" where
  "clean_markers line = strip_leading_marker (strip_markers line)"

text \<open>
  The choice of \<open>translatedLines\<close> in \<open>translateWithZhipuAI\<close>: the split at blank lines
  if it has the expected count, else the split at line feeds if that has it, else whichever
  of the two is closer to the expected count (the first on a tie); then the markers are
  removed from every line.
\<close>

definition abs_diff :: "nat \<Rightarrow> nat \<Rightarrow> nat" where
  "abs_diff a b = (if a \<le> b then b - a else a - b)"

definition zhipu_lines :: "jsstring \<Rightarrow> nat \<Rightarrow> jsstring list" where
  "zhipu_lines cleanedText expectedCount =
     (let doubleNewlineSplit = trimmed_lines (split_double_newline [] cleanedText) in
      map clean_markers
        (if length doubleNewlineSplit = expectedCount then doubleNewlineSplit
         else
           (let singleNewlineSplit = trimmed_lines (split_newline [] cleanedText) in
            if length singleNewlineSplit = expectedCount then singleNewlineSplit
            else if abs_diff (length singleNewlineSplit) expectedCount
                      < abs_diff (length doubleNewlineSplit) expectedCount
                 then singleNewlineSplit
                 else doubleNewlineSplit)))"

text \<open>The lines in \<open>translateWithOpenRouter\<close>, and those read from a cached result.\<close>

definition openrouter_lines :: "jsstring \<Rightarrow> jsstring list" where
  "openrouter_lines cleanedText = trimmed_lines (split_double_newline [] cleanedText)"

definition cached_lines :: "jsstring \<Rightarrow> jsstring list" where
  "cached_lines cachedResult =
     trimmed_lines (split_double_newline [] (clean_markers cachedResult))"

text \<open>The reason recorded on a fragment the response has no line for.\<close>

definition shortfall_reason :: "nat \<Rightarrow> nat \<Rightarrow> jsstring" where
  "shortfall_reason returned expectedCount =
     [65, 73, 36820, 22238, 19981, 36275, 65288] @ show_nat returned @ [47] @
     show_nat expectedCount @ [65289]"

text \<open>\<open>xs.slice(startIdx, endIdx)\<close> for indices that are not negative.\<close>

definition js_slice :: "nat \<Rightarrow> nat \<Rightarrow> 'a list \<Rightarrow> 'a list" where
  "js_slice startIdx endIdx xs = take (endIdx - startIdx) (drop startIdx xs)"

text \<open>
  The three-way assignment of \<open>translateWithZhipuAI\<close> (\<open>group.paragraphs.forEach((para,
  idx) => ...)\<close>): equal counts, too many lines, too few lines.
\<close>

definition assign_zhipu :: "jsstring list \<Rightarrow> fragment list \<Rightarrow> fragment list" where
  "assign_zhipu translatedLines paras =
     (let expectedCount = length paras in
      if length translatedLines = expectedCount then
        map (\<lambda>(idx, para). para\<lparr>translatedText := Some (translatedLines ! idx)\<rparr>)
          (enumerate 0 paras)
      else if length translatedLines > expectedCount then
        (let linesPerPara = (length translatedLines + expectedCount - 1) div expectedCount in
         map (\<lambda>(idx, para).
                let startIdx = idx * linesPerPara;
                    endIdx = min (startIdx + linesPerPara) (length translatedLines)
                in para\<lparr>translatedText :=
                          Some (js_join [32] (js_slice startIdx endIdx translatedLines))\<rparr>)
           (enumerate 0 paras))
      else
        map (\<lambda>(idx, para).
               if idx < length translatedLines
               then para\<lparr>translatedText := Some (translatedLines ! idx)\<rparr>
               else para\<lparr>translatedText := None,
                         skipReason :=
                           Some (shortfall_reason (length translatedLines) expectedCount)\<rparr>)
          (enumerate 0 paras))"

text \<open>
  The assignment of \<open>translateWithOpenRouter\<close>, which both functions also use for a
  cached result: a fragment without a line gets its own original text.
\<close>

definition assign_keep_original :: "jsstring list \<Rightarrow> fragment list \<Rightarrow> fragment list" where
  "assign_keep_original translatedLines paras =
     map (\<lambda>(idx, para).
            if idx < length translatedLines
            then para\<lparr>translatedText := Some (translatedLines ! idx)\<rparr>
            else para\<lparr>translatedText := Some (originalText para)\<rparr>)
       (enumerate 0 paras)"

text \<open>
  The test \<open>!p.translatedText || p.translatedText === p.originalText\<close> by which the
  retry pass and the rewriter recognise a fragment that has no translation.
\<close>

definition untranslated :: "fragment \<Rightarrow> bool" where
  "untranslated p =
     (case translatedText p of None \<Rightarrow> True | Some t \<Rightarrow> t = [] \<or> t = originalText p)"

text \<open>The degraded scenario: three fragments, a response of two segments.\<close>

definition three_fragments :: "fragment list" where
  "three_fragments = [para_of 0 (js ''One''), para_of 1 (js ''Two''), para_of 2 (js ''Three'')]"

definition two_segments :: jsstring where
  "two_segments = js ''Un'' @ [10, 10] @ js ''Deux''"

section \<open>The concurrency gate\<close>

text \<open>
  \<open>createSemaphore(maxConcurrent)\<close> keeps \<open>running\<close> and \<open>queue\<close>. A call of
  \<open>acquire(fn)\<close> is an async function: it runs up to its first \<open>await\<close> at once, and a
  caller suspended on the promise it pushed onto \<open>queue\<close> continues only when the
  scheduler runs its continuation, some time after the promise was resolved. So a caller
  is, in turn, in \<open>queue\<close> (pushed, not yet resolved), in \<open>resolved\<close> (resolved by a
  \<open>finally\<close> block, continuation not yet run), and in \<open>inside\<close> (past \<open>running++\<close>, its
  \<open>fn\<close> not yet settled). Callers are named by numbers.
\<close>

record semaphore =
  running :: nat
  queue :: "nat list"
  resolved :: "nat list"
  inside :: "nat list"

text \<open>
  The events: \<open>Acquire t\<close>, the call \<open>acquire(fn)\<close> by caller \<open>t\<close>, up to its first
  \<open>await\<close>; \<open>Resume t\<close>, the continuation of a caller whose promise was resolved
  (\<open>running++\<close> and the call of \<open>fn\<close>); \<open>Settle t\<close>, the end of \<open>await fn()\<close> for a
  caller inside, by fulfilment or rejection alike, with the \<open>finally\<close> block
  (\<open>running--; if (queue.length > 0) queue.shift()()\<close>).
\<close>

datatype event = Acquire nat | Resume nat | Settle nat

definition createSemaphore :: semaphore where
  "createSemaphore = \<lparr>running = 0, queue = [], resolved = [], inside = []\<rparr>"

fun sem_step :: "nat \<Rightarrow> semaphore \<Rightarrow> event \<Rightarrow> semaphore option" where
  "sem_step maxConcurrent s (Acquire t) =
     (if running s \<ge> maxConcurrent then Some (s\<lparr>queue := queue s @ [t]\<rparr>)
      else Some (s\<lparr>running := running s + 1, inside := inside s @ [t]\<rparr>))"
| "sem_step maxConcurrent s (Resume t) =
     (if t \<in> set (resolved s)
      then Some (s\<lparr>resolved := remove1 t (resolved s), running := running s + 1,
                   inside := inside s @ [t]\<rparr>)
      else None)"
| "sem_step maxConcurrent s (Settle t) =
     (if t \<in> set (inside s) then
        (let s' = s\<lparr>running := running s - 1, inside := remove1 t (inside s)\<rparr> in
         case queue s' of
           [] \<Rightarrow> Some s'
         | w # rest \<Rightarrow> Some (s'\<lparr>queue := rest, resolved := resolved s' @ [w]\<rparr>))
      else None)"

text \<open>A schedule is a list of events; an event that is not enabled makes it \<open>None\<close>.\<close>

fun sem_run :: "nat \<Rightarrow> semaphore \<Rightarrow> event list \<Rightarrow> semaphore option" where
  "sem_run maxConcurrent s [] = Some s"
| "sem_run maxConcurrent s (e # es) =
     (case sem_step maxConcurrent s e of
        None \<Rightarrow> None
      | Some s' \<Rightarrow> sem_run maxConcurrent s' es)"

text \<open>
  The schedules in which no \<open>acquire\<close> is called while a resolved caller has not yet
  continued: every \<open>Resume\<close> comes before the next \<open>Acquire\<close>.
\<close>

fun handoff_run :: "nat \<Rightarrow> semaphore \<Rightarrow> event list \<Rightarrow> semaphore option" where
  "handoff_run maxConcurrent s [] = Some s"
| "handoff_run maxConcurrent s (e # es) =
     (if (case e of Acquire t \<Rightarrow> resolved s \<noteq> [] | _ \<Rightarrow> False) then None
      else
        (case sem_step maxConcurrent s e of
           None \<Rightarrow> None
         | Some s' \<Rightarrow> handoff_run maxConcurrent s' es))"

definition gate_inv :: "nat \<Rightarrow> semaphore \<Rightarrow> bool" where
  "gate_inv maxConcurrent s =
     (running s = length (inside s) \<and> running s + length (resolved s) \<le> maxConcurrent)"

section \<open>The parsed document\<close>

text \<open>
  The tree under \<open>doc.body\<close>: text nodes, elements with their lower-cased tag name, their
  attributes (name and value) and their child nodes, and the other nodes (comments), which
  have no children. A node is referred to by its path from the body, \<open>[]\<close> being the body
  itself.
\<close>

datatype node =
    Text jsstring
  | Comment jsstring
  | Element string "(string \<times> jsstring) list" "node list"

fun get_node :: "node \<Rightarrow> path \<Rightarrow> node option" where
  "get_node n [] = Some n"
| "get_node n (i # p) =
     (case n of
        Element t atts cs \<Rightarrow> if i < length cs then get_node (cs ! i) p else None
      | _ \<Rightarrow> None)"

text \<open>\<open>node.textContent\<close> of a text node or an element.\<close>

fun textContent :: "node \<Rightarrow> jsstring" where
  "textContent (Text s) = s"
| "textContent (Comment d) = []"
| "textContent (Element t atts cs) = concat (map textContent cs)"

text \<open>The text nodes below a node, in document order, by their paths from it.\<close>

fun text_nodes :: "node \<Rightarrow> path list"
  and text_nodes_from :: "nat \<Rightarrow> node list \<Rightarrow> path list" where
  "text_nodes (Text s) = [[]]"
| "text_nodes (Comment d) = []"
| "text_nodes (Element t atts cs) = text_nodes_from 0 cs"
| "text_nodes_from i [] = []"
| "text_nodes_from i (c # cs) = map ((#) i) (text_nodes c) @ text_nodes_from (Suc i) cs"

definition tag_at :: "node \<Rightarrow> path \<Rightarrow> string option" where
  "tag_at body p = (case get_node body p of Some (Element t atts cs) \<Rightarrow> Some t | _ \<Rightarrow> None)"

definition text_at :: "node \<Rightarrow> path \<Rightarrow> jsstring" where
  "text_at body p = (case get_node body p of Some n \<Rightarrow> textContent n | None \<Rightarrow> [])"

text \<open>\<open>s.trim().length === 0\<close>.\<close>

definition blank :: "jsstring \<Rightarrow> bool" where
  "blank s = (js_trim s = [])"

text \<open>\<open>s.includes(pat)\<close> and \<open>s.startsWith(pat)\<close>.\<close>

fun starts_with :: "'a list \<Rightarrow> 'a list \<Rightarrow> bool" where
  "starts_with [] s = True"
| "starts_with (p # ps) [] = False"
| "starts_with (p # ps) (c # cs) = (p = c \<and> starts_with ps cs)"

fun js_includes :: "'a list \<Rightarrow> 'a list \<Rightarrow> bool" where
  "js_includes pat [] = (pat = [])"
| "js_includes pat (c # cs) = (starts_with pat (c # cs) \<or> js_includes pat cs)"

text \<open>
  \<open>element.innerHTML.includes('<br')\<close>. The serialisation of the children contains
  \<open><br\<close> where an element below has a tag name that begins with \<open>br\<close>, where the name
  or the value of an attribute contains it (a value is written with the ampersand, the
  no-break space and the double quote escaped; an engine that also escapes \<open><\<close> in
  values never finds it there), where a comment contains it, and where the text of an
  element whose text is serialised as it is contains it; other text is escaped and cannot.
\<close>

definition raw_text_tags :: "string list" where
  "raw_text_tags =
     [''style'', ''script'', ''xmp'', ''iframe'', ''noembed'', ''noframes'', ''plaintext'']"

fun serialized_has_br :: "string \<Rightarrow> node \<Rightarrow> bool" where
  "serialized_has_br parentTag (Text s) = (parentTag \<in> set raw_text_tags \<and> js_includes (js ''<br'') s)"
| "serialized_has_br parentTag (Comment d) = js_includes (js ''<br'') d"
| "serialized_has_br parentTag (Element t atts cs) =
     (starts_with ''br'' t \<or>
      (\<exists>(k, v) \<in> set atts. js_includes ''<br'' k \<or> js_includes (js ''<br'') v) \<or>
      (\<exists>c \<in> set cs. serialized_has_br t c))"

definition innerHTML_has_br :: "node \<Rightarrow> bool" where
  "innerHTML_has_br n =
     (case n of Element t atts cs \<Rightarrow> (\<exists>c \<in> set cs. serialized_has_br t c) | _ \<Rightarrow> False)"

section \<open>The fragment extractor\<close>

definition BLOCK_TAGS :: "string list" where
  "BLOCK_TAGS =
     [''p'', ''div'', ''h1'', ''h2'', ''h3'', ''h4'', ''h5'', ''h6'',
      ''li'', ''td'', ''th'', ''blockquote'', ''article'', ''section'', ''header'', ''footer'',
      ''aside'', ''main'', ''nav'', ''figure'', ''figcaption'', ''caption'', ''address'', ''pre'',
      ''dl'', ''dt'', ''dd'']"

text \<open>
  The walker's \<open>acceptNode\<close> on the text node at \<open>p\<close>: its text is not blank and the tag
  of its parent element is neither \<open>script\<close> nor \<open>style\<close>.
\<close>

definition acceptNode :: "node \<Rightarrow> path \<Rightarrow> bool" where
  "acceptNode body p =
     (\<not> blank (text_at body p) \<and>
      tag_at body (butlast p) \<noteq> Some ''script'' \<and> tag_at body (butlast p) \<noteq> Some ''style'')"

definition walker_nodes :: "node \<Rightarrow> path list" where
  "walker_nodes body = filter (acceptNode body) (text_nodes body)"

text \<open>
  \<open>while (element && element !== doc.body) { if (BLOCK_TAGS.has(tagName)) break;
  element = element.parentElement; }\<close>, from the element at \<open>e\<close> upwards: the nearest
  block-level element below the body, if there is one.
\<close>

function find_block :: "node \<Rightarrow> path \<Rightarrow> path option" where
  "find_block body e =
     (if e = [] then None
      else if (case tag_at body e of Some t \<Rightarrow> t \<in> set BLOCK_TAGS | None \<Rightarrow> False) then Some e
      else find_block body (butlast e))"
  by pat_completeness auto
termination
  by (relation "measure (\<lambda>(body, e). length e)") auto

declare find_block.simps [simp del]

text \<open>
  The pass over \<open>element.childNodes\<close> of a block that contains a line break, with its
  variables \<open>subParagraphs\<close> and \<open>currentText\<close>.
\<close>

fun br_child :: "(jsstring list \<times> jsstring) \<Rightarrow> node \<Rightarrow> (jsstring list \<times> jsstring)" where
  "br_child (subParagraphs, currentText) (Text t) =
     (if starts_with [12288] t \<or> \<not> blank t then (subParagraphs, currentText @ t)
      else (subParagraphs, currentText))"
| "br_child (subParagraphs, currentText) (Comment d) = (subParagraphs, currentText)"
| "br_child (subParagraphs, currentText) (Element tagName atts cs) =
     (if tagName = ''br'' then
        (if \<not> blank currentText then (subParagraphs @ [js_trim currentText], [])
         else (subParagraphs, currentText))
      else if tagName = ''a'' then
        (let linkText = textContent (Element tagName atts cs) in
         if \<not> blank linkText then
           (if currentText \<noteq> [] \<and> last currentText \<noteq> 10
            then (subParagraphs, currentText @ [32] @ linkText)
            else (subParagraphs, currentText @ linkText))
         else (subParagraphs, currentText))
      else
        (let t = textContent (Element tagName atts cs) in
         if t \<noteq> [] \<and> \<not> blank t then (subParagraphs, currentText @ t)
         else (subParagraphs, currentText)))"

definition br_paragraphs :: "node list \<Rightarrow> jsstring list" where
  "br_paragraphs childNodes =
     (let (subParagraphs, currentText) = foldl br_child ([], []) childNodes in
      if \<not> blank currentText then subParagraphs @ [js_trim currentText] else subParagraphs)"

definition children :: "node \<Rightarrow> node list" where
  "children n = (case n of Element t atts cs \<Rightarrow> cs | _ \<Rightarrow> [])"

text \<open>\<open>paragraphs.push({element, originalText, rawText, index: paragraphs.length, skipReason: null})\<close>\<close>

definition push_block :: "path \<Rightarrow> jsstring \<Rightarrow> jsstring \<Rightarrow> fragment list \<Rightarrow> fragment list" where
  "push_block e original raw paras =
     paras @ [\<lparr>element = e, originalText = original, rawText = raw, index = length paras,
               skipReason = None, textNode = None, isInline = False, translatedText = None\<rparr>]"

definition push_inline :: "path \<Rightarrow> jsstring \<Rightarrow> fragment list \<Rightarrow> fragment list" where
  "push_inline p t paras =
     paras @ [\<lparr>element = butlast p, originalText = t, rawText = t, index = length paras,
               skipReason = None, textNode = Some p, isInline = True, translatedText = None\<rparr>]"

text \<open>
  The body of \<open>while (node = walker.nextNode())\<close> for the text node at \<open>p\<close>; the state is
  \<open>processedElements\<close> and \<open>paragraphs\<close>.
\<close>

definition visit_text_node ::
  "node \<Rightarrow> (path list \<times> fragment list) \<Rightarrow> path \<Rightarrow> (path list \<times> fragment list)" where
  "visit_text_node body st p =
     (let (processedElements, paras) = st;
          t = js_trim (text_at body p) in
      if length t > 0 then
        (case find_block body (butlast p) of
           Some e \<Rightarrow>
             if e \<notin> set processedElements then
               (let rawText = text_at body e;
                    trimText = js_trim rawText;
                    hasBrTags = (case get_node body e of Some n \<Rightarrow> innerHTML_has_br n
                                 | None \<Rightarrow> False) in
                if hasBrTags \<and> length trimText \<ge> 1 then
                  (e # processedElements,
                   foldl (\<lambda>ps paraText.
                            if length paraText \<ge> 1 then push_block e paraText paraText ps else ps)
                     paras
                     (br_paragraphs (case get_node body e of Some n \<Rightarrow> children n | None \<Rightarrow> [])))
                else if length trimText \<ge> 1 then
                  (e # processedElements, push_block e trimText rawText paras)
                else (e # processedElements, paras))
             else (processedElements, paras)
         | None \<Rightarrow> (processedElements, push_inline p t paras))
      else (processedElements, paras))"

definition extract_paragraphs :: "node \<Rightarrow> fragment list" where
  "extract_paragraphs body = snd (foldl (visit_text_node body) ([], []) (walker_nodes body))"

text \<open>A block with a line break, followed by loose text under the body.\<close>

definition stanza_doc :: node where
  "stanza_doc =
     Element ''body'' []
       [Element ''p'' [] [Text (js ''Hello''), Element ''br'' [] [], Text (js ''World'')],
        Text (js ''loose'')]"

text \<open>
  What the HTML parser guarantees about line breaks: a \<open>br\<close> element is void, it has
  no children.
\<close>

fun br_void :: "node \<Rightarrow> bool" where
  "br_void (Text s) = True"
| "br_void (Comment d) = True"
| "br_void (Element t atts cs) = ((t = ''br'' \<longrightarrow> cs = []) \<and> (\<forall>c \<in> set cs. br_void c))"

text \<open>
  The parsed document: its \<open>head\<close> and its \<open>body\<close> element. The extraction walks
  \<open>doc.body\<close> only.
\<close>

datatype html_document = Document node node

fun doc_head :: "html_document \<Rightarrow> node" where
  "doc_head (Document h b) = h"

fun doc_body :: "html_document \<Rightarrow> node" where
  "doc_body (Document h b) = b"

definition document_paragraphs :: "html_document \<Rightarrow> fragment list" where
  "document_paragraphs doc = extract_paragraphs (doc_body doc)"

text \<open>The stanzas as a document, and a document with a title in its head.\<close>

definition stanza_document :: html_document where
  "stanza_document = Document (Element ''head'' [] []) stanza_doc"

definition title_document :: html_document where
  "title_document =
     Document (Element ''head'' [] [Element ''title'' [] [Text (js ''Book'')]])
       (Element ''body'' [] [Element ''p'' [] [Text (js ''Hello'')]])"

text \<open>
  The text node at \<open>p\<close> is accounted for by the fragments: a fragment anchored to its
  nearest block-level ancestor holds its trimmed text as a part of its original text, or,
  when there is no such ancestor, an inline fragment of its own holds its trimmed text.
\<close>

definition accounted :: "node \<Rightarrow> fragment list \<Rightarrow> path \<Rightarrow> bool" where
  "accounted body paras p =
     (case find_block body (butlast p) of
        Some e \<Rightarrow>
          \<exists>f \<in> set paras. \<not> isInline f \<and> element f = e \<and> strict_prefix e p \<and>
            sublist (js_trim (text_at body p)) (originalText f)
      | None \<Rightarrow>
          \<exists>f \<in> set paras. isInline f \<and> textNode f = Some p \<and>
            originalText f = js_trim (text_at body p))"

text \<open>
  Invariants of the extraction loop and of the pass over the children: the fragments of
  a processed block hold the text of every text node below it; the text \<open>c\<close> is part of
  a finished sub-paragraph or of the current one.
\<close>

definition block_covered :: "node \<Rightarrow> path \<Rightarrow> fragment list \<Rightarrow> bool" where
  "block_covered body e paras =
     (\<forall>q s. q \<noteq> [] \<and> get_node body (e @ q) = Some (Text s) \<and> \<not> blank s \<longrightarrow>
        (\<exists>f \<in> set paras. \<not> isInline f \<and> element f = e \<and>
           sublist (js_trim s) (originalText f)))"

definition processed_covered :: "node \<Rightarrow> path list \<times> fragment list \<Rightarrow> bool" where
  "processed_covered body st = (\<forall>e \<in> set (fst st). block_covered body e (snd st))"

definition carries :: "jsstring \<Rightarrow> jsstring list \<times> jsstring \<Rightarrow> bool" where
  "carries c st = ((\<exists>x \<in> set (fst st). sublist c x) \<or> sublist c (snd st))"

section \<open>The document rewriter\<close>

text \<open>
  \<open>para.translatedText && para.translatedText !== para.originalText\<close>, the test under
  which a fragment is written back, and the text written.
\<close>

definition translated :: "fragment \<Rightarrow> bool" where
  "translated p = (\<not> untranslated p)"

definition translation_of :: "fragment \<Rightarrow> jsstring" where
  "translation_of p = (case translatedText p of Some t \<Rightarrow> t | None \<Rightarrow> [])"

text \<open>
  The node a translated fragment is written to: its text node if it has one, else its
  element.
\<close>

definition anchor :: "fragment \<Rightarrow> path" where
  "anchor p = (case textNode p of Some t \<Rightarrow> t | None \<Rightarrow> element p)"

text \<open>A change of the node at a path; a path that leads nowhere changes nothing.\<close>

fun update_at :: "(node \<Rightarrow> node) \<Rightarrow> path \<Rightarrow> node \<Rightarrow> node" where
  "update_at g [] n = g n"
| "update_at g (i # p) n =
     (case n of
        Element t atts cs \<Rightarrow>
          if i < length cs then Element t atts (cs[i := update_at g p (cs ! i)]) else n
      | _ \<Rightarrow> n)"

text \<open>\<open>textNode.textContent = s\<close> on a text node.\<close>

definition set_text :: "jsstring \<Rightarrow> node \<Rightarrow> node" where
  "set_text s n = (case n of Text old \<Rightarrow> Text s | _ \<Rightarrow> n)"

definition set_children :: "node list \<Rightarrow> node \<Rightarrow> node" where
  "set_children new n = (case n of Element t atts cs \<Rightarrow> Element t atts new | _ \<Rightarrow> n)"

text \<open>
  The children an element has after \<open>element.textContent = s\<close>, and after
  \<open>element.innerHTML = newContent\<close> where \<open>newContent\<close> is the escaped texts joined by
  \<open><br class="calibre2"/>\<close>: escaping and parsing give each text back as one text node
  (the parser's normalisation of carriage returns is not modelled).
\<close>

definition text_child :: "jsstring \<Rightarrow> node list" where
  "text_child s = (if s = [] then [] else [Text s])"

fun br_content :: "jsstring list \<Rightarrow> node list" where
  "br_content [] = []"
| "br_content [t] = text_child t"
| "br_content (t # u # ts) = text_child t @ [Element ''br'' [] []] @ br_content (u # ts)"

text \<open>
  A node whose former parent chain has had its content replaced is no longer in the
  document: a write to it changes nothing there. \<open>replacedElements\<close> holds the elements
  whose content was replaced.
\<close>

definition detached :: "path list \<Rightarrow> path \<Rightarrow> bool" where
  "detached replacedElements target = (\<exists>e \<in> set replacedElements. strict_prefix e target)"

text \<open>
  The body of the second \<open>paragraphs.forEach\<close>. \<open>elementTranslations.get(para.element)\<close>
  is the list of the translated fragments with that element, in order. No fragment of
  these functions has a \<open>textNodes\<close> field, so that branch is never taken.
\<close>

definition rewrite_para ::
  "fragment list \<Rightarrow> (node \<times> path list) \<Rightarrow> fragment \<Rightarrow> (node \<times> path list)" where
  "rewrite_para paras st para =
     (let (body, replacedElements) = st in
      if translated para then
        (case textNode para of
           Some t \<Rightarrow>
             if detached replacedElements t then (body, replacedElements)
             else (update_at (set_text (translation_of para)) t body, replacedElements)
         | None \<Rightarrow>
             (let e = element para in
              if e \<in> set replacedElements then (body, replacedElements)
              else if detached replacedElements e then (body, e # replacedElements)
              else
                (let translations = filter (\<lambda>p. translated p \<and> element p = e) paras;
                     originalHasBr = (case get_node body e of Some n \<Rightarrow> innerHTML_has_br n
                                      | None \<Rightarrow> False);
                     newChildren =
                       (if originalHasBr \<and> length translations > 1
                        then br_content (map translation_of translations)
                        else text_child
                               (if length translations = 1 then translation_of para
                                else js_join [10, 10] (map translation_of translations)))
                 in (update_at (set_children newChildren) e body, e # replacedElements))))
      else (body, replacedElements))"

text \<open>
  The metadata patterns tested on the trimmed text of every text node before
  serialisation: \<open>/Excerpt From/i\<close>, \<open>/This material may be protected by copyright/i\<close>
  and \<open>/\[.*?[...][\s\-\<rightarrow>]*.*?\]/i\<close>, whose class lists CJK characters that name
  languages. With the \<open>i\<close> flag an ASCII letter of the pattern matches its two cases
  and nothing else; the dot matches everything but a line terminator.
\<close>

definition to_lower :: "nat \<Rightarrow> nat" where
  "to_lower c = (if 65 \<le> c \<and> c \<le> 90 then c + 32 else c)"

definition includes_ci :: "string \<Rightarrow> jsstring \<Rightarrow> bool" where
  "includes_ci pat s = js_includes (map to_lower (js pat)) (map to_lower s)"

definition is_line_terminator :: "nat \<Rightarrow> bool" where
  "is_line_terminator c = (c = 10 \<or> c = 13 \<or> c = 8232 \<or> c = 8233)"

definition is_language_char :: "nat \<Rightarrow> bool" where
  "is_language_char c =
     (c \<in> set [26085, 20013, 38889, 33521, 27861, 24503, 20420, 33889, 35199, 35486, 35821])"

definition is_separator :: "nat \<Rightarrow> bool" where
  "is_separator c = (is_js_space c \<or> c = 45 \<or> c = 8594)"

text \<open>After the separators: \<open>.*?\]\<close>.\<close>

fun closes_bracket :: "jsstring \<Rightarrow> bool" where
  "closes_bracket [] = False"
| "closes_bracket (c # cs) = (c = 93 \<or> (\<not> is_line_terminator c \<and> closes_bracket cs))"

text \<open>After the language character: \<open>[\s\-\<rightarrow>]*.*?\]\<close>.\<close>

fun after_language :: "jsstring \<Rightarrow> bool" where
  "after_language [] = False"
| "after_language (c # cs) =
     (closes_bracket (c # cs) \<or> (is_separator c \<and> after_language cs))"

text \<open>After the opening bracket: \<open>.*?[...]\<close> and the rest.\<close>

fun after_open :: "jsstring \<Rightarrow> bool" where
  "after_open [] = False"
| "after_open (c # cs) =
     ((is_language_char c \<and> after_language cs) \<or> (\<not> is_line_terminator c \<and> after_open cs))"

fun bracket_language :: "jsstring \<Rightarrow> bool" where
  "bracket_language [] = False"
| "bracket_language (c # cs) = ((c = 91 \<and> after_open cs) \<or> bracket_language cs)"

definition hasMetadata :: "jsstring \<Rightarrow> bool" where
  "hasMetadata nodeText =
     (includes_ci ''Excerpt From'' nodeText \<or>
      includes_ci ''This material may be protected by copyright'' nodeText \<or>
      bracket_language nodeText)"

text \<open>The text nodes pushed onto \<open>nodesToRemove\<close>.\<close>

definition metadata_node :: "node \<Rightarrow> bool" where
  "metadata_node n =
     (case n of
        Text s \<Rightarrow> length (js_trim s) > 0 \<and> hasMetadata (js_trim s)
      | _ \<Rightarrow> False)"

text \<open>The removal of those nodes from their parents.\<close>

fun cleanup :: "node \<Rightarrow> node"
  and cleanup_list :: "node list \<Rightarrow> node list" where
  "cleanup (Text s) = Text s"
| "cleanup (Comment d) = Comment d"
| "cleanup (Element t atts cs) = Element t atts (cleanup_list cs)"
| "cleanup_list [] = []"
| "cleanup_list (c # cs) =
     (if metadata_node c then cleanup_list cs else cleanup c # cleanup_list cs)"

text \<open>
  The rewriting stage: the pass over the fragments, then the removal of the metadata
  nodes. The result is the tree that is serialised.
\<close>

definition rewrite_document :: "fragment list \<Rightarrow> node \<Rightarrow> node" where
  "rewrite_document paras body =
     cleanup (fst (foldl (rewrite_para paras) (body, []) paras))"

text \<open>
  Where a node is after the removal: at each step of its path, at its place among the
  children that are kept.
\<close>

fun cleanup_path :: "node \<Rightarrow> path \<Rightarrow> path" where
  "cleanup_path n [] = []"
| "cleanup_path n (i # p) =
     (case n of
        Element t atts cs \<Rightarrow>
          length (filter (\<lambda>c. \<not> metadata_node c) (take i cs)) # cleanup_path (cs ! i) p
      | _ \<Rightarrow> i # p)"

definition is_element :: "node \<Rightarrow> bool" where
  "is_element n = (case n of Element t atts cs \<Rightarrow> True | _ \<Rightarrow> False)"

text \<open>No text node of the subtree is a metadata node.\<close>

fun no_metadata :: "node \<Rightarrow> bool" where
  "no_metadata (Text s) = (\<not> metadata_node (Text s))"
| "no_metadata (Comment d) = True"
| "no_metadata (Element t atts cs) = (\<forall>c \<in> set cs. no_metadata c)"

text \<open>Two paths of which neither leads through the other.\<close>

definition apart :: "path \<Rightarrow> path \<Rightarrow> bool" where
  "apart a b = (\<not> prefix a b \<and> \<not> prefix b a)"

text \<open>A block of two stanzas, and a block whose text looks like metadata.\<close>

definition two_stanzas :: node where
  "two_stanzas =
     Element ''body'' [] [Element ''p'' [] [Text (js ''Hello''), Element ''br'' [] [], Text (js ''World'')]]"

definition excerpt_doc :: node where
  "excerpt_doc =
     Element ''body'' []
       [Element ''p'' [] [Text (js ''Excerpt from my diary'')], Element ''p'' [] [Text (js ''Hello'')]]"

text \<open>Two blocks, of which the first is translated.\<close>

definition two_blocks :: node where
  "two_blocks =
     Element ''body'' [] [Element ''p'' [] [Text (js ''Hello'')], Element ''p'' [] [Text (js ''World'')]]"

text \<open>
  The two stanzas after a response of one segment: the second fragment is left for the
  retry pass, which fails too.
\<close>

definition half_translated :: "fragment list" where
  "half_translated = assign_zhipu [js ''Bonjour''] (extract_paragraphs two_stanzas)"

definition first_translated :: "fragment list" where
  "first_translated =
     [(para_of 0 (js ''Hello''))\<lparr>translatedText := Some (js ''Bonjour'')\<rparr>,
      para_of 1 (js ''World'')]"

section \<open>Properties of the grouper\<close>

lemma length_js_join:
  "length (js_join sep xs) = sum_list (map length xs) + length sep * (length xs - 1)"
  by (induction sep xs rule: js_join.induct) auto

lemma group_loop_concat:
  "concat (map paragraphs (group_loop ps g cur len)) = concat (map paragraphs g) @ cur @ ps"
  by (induction ps g cur len rule: group_loop.induct)
     (auto simp: Let_def flush_batch_def)

text \<open>
  C10. The batches are an ordered partition of the fragment list: concatenating the
  batches' fragment lists in batch order gives back exactly the input list.
\<close>

theorem group_paragraphs_partition:
  "concat (map paragraphs (group_paragraphs ps)) = ps"
  by (simp add: group_paragraphs_def group_loop_concat)

lemma flush_ok:
  assumes "cur_ok cur len" "length (originalText p) \<le> TARGET_MAX_LENGTH"
  shows "accumulated_batch (flush_batch (cur @ [p]))"
  using assms
  unfolding cur_ok_def accumulated_batch_def flush_batch_def TARGET_MIN_LENGTH_def TARGET_MAX_LENGTH_def
  by (simp add: length_js_join o_def)

lemma flush_rest_ok:
  assumes "cur_ok cur len" "0 < length cur"
  shows "accumulated_batch (flush_batch cur)"
proof -
  have "sum_list (map (\<lambda>p. length (originalText p)) (butlast cur)) \<le> sum_list (map (\<lambda>p. length (originalText p)) cur)"
    using assms(2) by (cases cur rule: rev_cases) auto
  moreover have "length cur - 1 < 8" using assms unfolding cur_ok_def by arith
  ultimately show ?thesis
  using assms
  unfolding cur_ok_def accumulated_batch_def flush_batch_def TARGET_MIN_LENGTH_def TARGET_MAX_LENGTH_def
  by (simp add: length_js_join o_def)
qed

lemma single_ok: "length (originalText p) > TARGET_MAX_LENGTH \<Longrightarrow>
   oversized_singleton \<lparr>paragraphs = [p], combinedText = originalText p, count = 1\<rparr>"
  by (simp add: oversized_singleton_def)

lemma group_loop_inv:
  "list_all batch_ok g \<Longrightarrow> cur_ok cur len \<Longrightarrow> list_all batch_ok (group_loop ps g cur len)"
proof (induction ps g cur len rule: group_loop.induct)
  case (1 g cur len)
  then show ?case by (auto simp: batch_ok_def flush_rest_ok)
next
  case (2 para rest g cur len)
  have e: "cur_ok [] 0" by (simp add: cur_ok_def TARGET_MIN_LENGTH_def)
  show ?case
  proof (cases "length (originalText para) > TARGET_MAX_LENGTH")
    case True
    note big = single_ok[OF True]
    show ?thesis
    proof (cases "length cur > 0")
      case T2: True
      have "batch_ok (flush_batch cur)" using flush_rest_ok[OF 2(6) T2] by (simp add: batch_ok_def)
      then show ?thesis using 2(1)[OF refl True T2 _ e] 2(5) True T2 big
        by (simp add: Let_def batch_ok_def)
    next
      case F2: False
      show ?thesis using 2(2)[OF refl True F2 _ 2(6)] 2(5) True F2 big
        by (simp add: Let_def batch_ok_def)
    qed
  next
    case False
    then have le: "length (originalText para) \<le> TARGET_MAX_LENGTH" by simp
    show ?thesis
    proof (cases "len + length (originalText para) \<ge> TARGET_MIN_LENGTH \<or> length (cur @ [para]) \<ge> 8")
      case True
      have "accumulated_batch (flush_batch (cur @ [para]))" using flush_ok[OF 2(6) le] .
      then show ?thesis using 2(3)[OF refl _ refl refl] 2(5) False True e
        by (simp add: Let_def batch_ok_def)
    next
      case F2: False
      have "cur_ok (cur @ [para]) (len + length (originalText para))"
        using 2(6) le F2 by (auto simp: cur_ok_def)
      then show ?thesis using 2(4)[OF refl _ refl refl] 2(5) False F2
        by (simp add: Let_def)
    qed
  qed
qed


lemma oversized_alone:
  assumes "oversized_singleton g \<or> accumulated_batch g"
    and "p \<in> set (paragraphs g)" and "length (originalText p) > TARGET_MAX_LENGTH"
  shows "paragraphs g = [p]"
proof -
  from assms(2,3) have "\<not> accumulated_batch g"
    by (fastforce simp: accumulated_batch_def list_all_iff)
  with assms(1) have "oversized_singleton g" by simp
  with assms(2) show ?thesis
    by (auto simp: oversized_singleton_def split: list.splits)
qed

text \<open>
  C2, as the code has it. Every batch is either one oversized fragment alone (longer than
  the hard maximum of 500, its text the batch text), or an accumulated batch: at most
  eight fragments, none longer than 500, whose lengths without the last one sum to less
  than the soft minimum 300, so that the lengths sum to less than 800 and the combined
  text, separators included, has at most 813 code units. A fragment longer than the hard
  maximum is never in a batch with another fragment.
\<close>

theorem group_paragraphs_window:
  assumes "g \<in> set (group_paragraphs ps)"
  shows "(oversized_singleton g \<or> accumulated_batch g) \<and>
         (\<forall>p \<in> set (paragraphs g).
            length (originalText p) > TARGET_MAX_LENGTH \<longrightarrow> paragraphs g = [p])"
proof -
  have "cur_ok [] 0" by (simp add: cur_ok_def TARGET_MIN_LENGTH_def)
  then have "list_all batch_ok (group_paragraphs ps)"
    unfolding group_paragraphs_def by (intro group_loop_inv) simp_all
  with assms have ok: "oversized_singleton g \<or> accumulated_batch g"
    by (auto simp: list_all_iff batch_ok_def)
  then show ?thesis using oversized_alone by blast
qed

theorem group_paragraphs_window_witness:
  "flush_batch [para_of 0 (replicate 299 97), para_of 1 (replicate 500 97)]
     \<in> set (group_paragraphs
         [para_of 0 (replicate 299 97), para_of 1 (replicate 500 97),
          para_of 2 (replicate 501 97)]) \<and>
   accumulated_batch (flush_batch [para_of 0 (replicate 299 97), para_of 1 (replicate 500 97)])"
proof -
  let ?g = "flush_batch [para_of 0 (replicate 299 97), para_of 1 (replicate 500 97)]"
  let ?ps = "[para_of 0 (replicate 299 97), para_of 1 (replicate 500 97),
          para_of 2 (replicate 501 97)]"
  have mem: "?g \<in> set (group_paragraphs ?ps)"
    by (simp add: group_paragraphs_def Let_def para_of_def TARGET_MIN_LENGTH_def
        TARGET_MAX_LENGTH_def)
  have "\<not> oversized_singleton ?g"
    by (simp add: oversized_singleton_def flush_batch_def)
  with group_paragraphs_window [OF mem] mem show ?thesis by simp
qed

text \<open>
  C2 as stated fails: a fragment of 299 code units followed by one of 500 makes one batch
  of two fragments, neither of them oversized, whose combined text has 801 code units.
\<close>

theorem group_paragraphs_window_counterexample:
  "group_paragraphs [para_of 0 (replicate 299 97), para_of 1 (replicate 500 97)] =
     [flush_batch [para_of 0 (replicate 299 97), para_of 1 (replicate 500 97)]] \<and>
   length (combinedText
     (flush_batch [para_of 0 (replicate 299 97), para_of 1 (replicate 500 97)])) = 801 \<and>
   TARGET_MAX_LENGTH < 801 \<and>
   length (paragraphs
     (flush_batch [para_of 0 (replicate 299 97), para_of 1 (replicate 500 97)])) = 2"
  by (simp add: group_paragraphs_def Let_def para_of_def TARGET_MIN_LENGTH_def
      TARGET_MAX_LENGTH_def flush_batch_def)

section \<open>Properties of the retry loop and the backends\<close>

lemma retry_loop_three:
  assumes "attempt 0 = Inl e0" "attempt 1 = Inl e1"
  shows "retry_loop backoff attempt 0 [] 0 =
     (case attempt 2 of
        Inr r \<Rightarrow> \<lparr>result = Success r, delays = [backoff 1, backoff 2], attempts = 3\<rparr>
      | Inl m \<Rightarrow> \<lparr>result = Failure m, delays = [backoff 1, backoff 2], attempts = 3\<rparr>)"
proof -
  have 2: "retry_loop backoff attempt 2 [backoff 1, backoff 2] 2 =
     (case attempt 2 of
        Inr r \<Rightarrow> \<lparr>result = Success r, delays = [backoff 1, backoff 2], attempts = 3\<rparr>
      | Inl m \<Rightarrow> \<lparr>result = Failure m, delays = [backoff 1, backoff 2], attempts = 3\<rparr>)"
    by (subst retry_loop.simps) (simp add: maxRetries_def split: sum.splits)
  have 1: "retry_loop backoff attempt 1 [backoff 1] 1 =
      retry_loop backoff attempt 2 [backoff 1, backoff 2] 2"
    using assms(2) by (subst retry_loop.simps) (simp add: maxRetries_def numeral_2_eq_2)
  have 0: "retry_loop backoff attempt 0 [] 0 = retry_loop backoff attempt 1 [backoff 1] 1"
    using assms(1) by (subst retry_loop.simps) (simp add: maxRetries_def)
  show ?thesis by (simp only: 0 1 2)
qed

lemma zhipu_backoff_values:
  "zhipu_backoff 1 = 500" "zhipu_backoff (Suc 0) = 500" "zhipu_backoff 2 = 1000"
  by (simp_all add: zhipu_backoff_def)

lemma retry_loop_all_fail:
  assumes "\<And>k. attempt k = Inl m"
  shows "retry_loop backoff attempt 0 [] 0 =
           \<lparr>result = Failure m, delays = [backoff 1, backoff 2], attempts = 3\<rparr>"
  using retry_loop_three [of attempt m m backoff] assms by simp

text \<open>
  C6. A batch request whose first two attempts throw and whose third returns comes back
  with the third attempt's result, after three attempts. Between the attempts
  \<open>translateWithZhipuAI\<close> waits 500 ms and then 1000 ms, \<open>translateWithOpenRouter\<close>
  1000 ms and then 2000 ms: the second delay is twice the first. The first computes
  \<open>min(500 * 2^(retries - 1), 2000)\<close>, which doubles from one attempt to the next under
  the cap of 2000 ms.
\<close>

theorem retry_twice_then_success:
  assumes "attempt 0 = Inl e0" and "attempt 1 = Inl e1" and "attempt 2 = Inr r"
  shows "zhipu_dispatch attempt = \<lparr>result = Success r, delays = [500, 1000], attempts = 3\<rparr> \<and>
         openrouter_dispatch attempt =
           \<lparr>result = Success r, delays = [1000, 2000], attempts = 3\<rparr> \<and>
         (\<forall>k. 0 < k \<longrightarrow> zhipu_backoff (Suc k) = min (2 * zhipu_backoff k) 2000)"
proof -
  have "\<And>k. 0 < k \<Longrightarrow> zhipu_backoff (Suc k) = min (2 * zhipu_backoff k) 2000"
  proof -
    fix k :: nat assume "0 < k"
    then obtain j where "k = Suc j" by (cases k) auto
    then show "zhipu_backoff (Suc k) = min (2 * zhipu_backoff k) 2000"
      by (simp add: zhipu_backoff_def min_def)
  qed
  then show ?thesis
    using retry_loop_three [OF assms(1,2), of zhipu_backoff]
      retry_loop_three [OF assms(1,2), of openrouter_backoff] assms(3)
    by (simp add: zhipu_dispatch_def openrouter_dispatch_def zhipu_backoff_values
        openrouter_backoff_def)
qed

theorem retry_twice_then_success_witness:
  "zhipu_dispatch (\<lambda>k. zhipu_request (timeout_twice_then (js ''Bonjour'') k)) =
     \<lparr>result = Success (js ''Bonjour''), delays = [500, 1000], attempts = 3\<rparr>"
proof -
  have t: "js_trim (js ''Bonjour'') = js ''Bonjour''"
    by (simp add: js_trim_def js_def is_js_space_def)
  have nz: "js ''Bonjour'' \<noteq> []" by (simp add: js_def)
  have a: "zhipu_request (timeout_twice_then (js ''Bonjour'') 0) = Inl (js ''The user aborted a request.'')"
       "zhipu_request (timeout_twice_then (js ''Bonjour'') 1) = Inl (js ''The user aborted a request.'')"
       "zhipu_request (timeout_twice_then (js ''Bonjour'') 2) = Inr (js ''Bonjour'')"
    using nz by (simp_all add: zhipu_request_def timeout_twice_then_def response_ok_def t)
  show ?thesis
    using retry_twice_then_success [of "\<lambda>k. zhipu_request (timeout_twice_then (js ''Bonjour'') k)", OF a]
    by simp
qed


text \<open>
  C7, as the code has it. A 401 response is thrown inside the attempt with a message of its
  own, different from the messages built for the other failures of the response, and the
  \<open>catch\<close> of the retry loop treats it as any other error: when every attempt is answered
  with 401 the batch makes all three attempts, waits between them as for a transient
  failure, and returns the failure with the 401 message as that batch's result.
\<close>

theorem unauthorized_is_retried:
  assumes "status r = 401"
  shows "zhipu_request (Response r) = Inl zhipu_401_message \<and>
         openrouter_request (Response r) = Inl openrouter_401_message \<and>
         zhipu_dispatch (\<lambda>k. zhipu_request (Response r)) =
           \<lparr>result = Failure zhipu_401_message, delays = [500, 1000], attempts = 3\<rparr> \<and>
         openrouter_dispatch (\<lambda>k. openrouter_request (Response r)) =
           \<lparr>result = Failure openrouter_401_message, delays = [1000, 2000], attempts = 3\<rparr> \<and>
         zhipu_401_message \<noteq> empty_response_message \<and>
         openrouter_401_message \<noteq> bad_format_message \<and>
         (\<forall>n d. zhipu_401_message \<noteq> api_call_failed @ show_nat n @ d \<and>
                openrouter_401_message \<noteq> api_call_failed @ show_nat n @ d)"
proof -
  have z: "zhipu_request (Response r) = Inl zhipu_401_message"
    using assms by (simp add: zhipu_request_def response_ok_def)
  have o: "openrouter_request (Response r) = Inl openrouter_401_message"
    using assms by (simp add: openrouter_request_def response_ok_def)
  have zd: "zhipu_dispatch (\<lambda>k. zhipu_request (Response r)) =
           \<lparr>result = Failure zhipu_401_message, delays = [500, 1000], attempts = 3\<rparr>"
    unfolding zhipu_dispatch_def
    by (subst retry_loop_all_fail [where m = zhipu_401_message])
       (simp_all add: z zhipu_backoff_values)
  have od: "openrouter_dispatch (\<lambda>k. openrouter_request (Response r)) =
           \<lparr>result = Failure openrouter_401_message, delays = [1000, 2000], attempts = 3\<rparr>"
    unfolding openrouter_dispatch_def
    by (subst retry_loop_all_fail [where m = openrouter_401_message])
       (simp_all add: o openrouter_backoff_def)
  have d1: "zhipu_401_message \<noteq> empty_response_message"
    by (simp add: zhipu_401_message_def empty_response_message_def)
  have d2: "openrouter_401_message \<noteq> bad_format_message"
    by (simp add: openrouter_401_message_def bad_format_message_def)
  have d3: "\<And>n d. zhipu_401_message \<noteq> api_call_failed @ show_nat n @ d"
    by (simp add: zhipu_401_message_def api_call_failed_def)
  have d4: "\<And>n d. openrouter_401_message \<noteq> api_call_failed @ show_nat n @ d"
    by (simp add: openrouter_401_message_def api_call_failed_def)
  show ?thesis using z o zd od d1 d2 d3 d4 by blast
qed

theorem unauthorized_is_retried_witness:
  "attempts (zhipu_dispatch (\<lambda>k. zhipu_request (Response unauthorized))) = 3 \<and>
   result (zhipu_dispatch (\<lambda>k. zhipu_request (Response unauthorized))) =
     Failure zhipu_401_message"
proof -
  have "status unauthorized = 401" by (simp add: unauthorized_def)
  from unauthorized_is_retried [OF this]
  have d: "zhipu_dispatch (\<lambda>k. zhipu_request (Response unauthorized)) =
           \<lparr>result = Failure zhipu_401_message, delays = [500, 1000], attempts = 3\<rparr>"
    by blast
  show ?thesis unfolding d by simp
qed

text \<open>
  C7 as stated fails: with a backend that answers 401 every time, both hosted backends
  make three attempts and wait twice, where "not retried" would be one attempt and no
  delay.
\<close>

theorem unauthorized_not_retried_counterexample:
  "attempts (zhipu_dispatch (\<lambda>k. zhipu_request (Response unauthorized))) = 3 \<and>
   delays (zhipu_dispatch (\<lambda>k. zhipu_request (Response unauthorized))) = [500, 1000] \<and>
   attempts (openrouter_dispatch (\<lambda>k. openrouter_request (Response unauthorized))) = 3 \<and>
   delays (openrouter_dispatch (\<lambda>k. openrouter_request (Response unauthorized))) = [1000, 2000]"
proof -
  have z: "\<And>k. zhipu_request (Response unauthorized) = Inl zhipu_401_message"
    by (simp add: zhipu_request_def response_ok_def unauthorized_def)
  have o: "\<And>k. openrouter_request (Response unauthorized) = Inl openrouter_401_message"
    by (simp add: openrouter_request_def response_ok_def unauthorized_def)
  show ?thesis
    unfolding zhipu_dispatch_def openrouter_dispatch_def
    by (simp add: retry_loop_all_fail [where m = zhipu_401_message] z o
        retry_loop_all_fail [where m = openrouter_401_message]
        zhipu_backoff_values openrouter_backoff_def)
qed

text \<open>
  C9, as the code has it. The two hosted backends abort a batch request after 120 seconds
  and a single-fragment retry request after 60 seconds; a rejected \<open>fetch\<close> (the abort
  included) and a response that is not ok are thrown as errors inside the attempt. The
  custom endpoint sets no timeout, and answers a rejected \<open>fetch\<close> or a response that is
  not ok with the untranslated input text.
\<close>

theorem hosted_backends_timeout_and_throw:
  "abort_timeout Zhipu BatchRequest = Some 120000 \<and>
   abort_timeout OpenRouter BatchRequest = Some 120000 \<and>
   abort_timeout Zhipu RetryRequest = Some 60000 \<and>
   abort_timeout OpenRouter RetryRequest = Some 60000 \<and>
   abort_timeout Custom kind = None \<and>
   zhipu_request (Rejected m) = Inl m \<and>
   openrouter_request (Rejected m) = Inl m \<and>
   (\<not> response_ok r \<longrightarrow>
      (\<exists>e. zhipu_request (Response r) = Inl e) \<and>
      (\<exists>e. openrouter_request (Response r) = Inl e)) \<and>
   (endpoint \<noteq> [] \<and> apiKey \<noteq> [] \<longrightarrow>
      translateWithCustomAPI endpoint apiKey text (Rejected m) = Inr text \<and>
      (\<not> response_ok r \<longrightarrow>
         translateWithCustomAPI endpoint apiKey text (Response r) = Inr text))"
  by (cases kind)
     (auto simp: zhipu_request_def openrouter_request_def translateWithCustomAPI_def
        split: error_body.splits)

theorem hosted_backends_timeout_and_throw_witness:
  "\<not> response_ok unauthorized \<and>
   zhipu_request (Response unauthorized) = Inl zhipu_401_message \<and>
   translateWithCustomAPI (js ''https://example.org/t'') (js ''key'') (js ''Hello'')
     (Response unauthorized) = Inr (js ''Hello'')"
proof -
  have n: "\<not> response_ok unauthorized" by (simp add: response_ok_def unauthorized_def)
  have c: "js ''https://example.org/t'' \<noteq> [] \<and> js ''key'' \<noteq> []" by (simp add: js_def)
  have z: "zhipu_request (Response unauthorized) = Inl zhipu_401_message"
    by (simp add: zhipu_request_def response_ok_def unauthorized_def)
  from hosted_backends_timeout_and_throw
    [of BatchRequest "[]" unauthorized "js ''https://example.org/t''" "js ''key''" "js ''Hello''"]
    n c z
  show ?thesis by blast
qed

text \<open>
  C9 as stated fails for the custom endpoint: no timeout, and a failed request returns
  the input text.
\<close>

theorem custom_backend_counterexample:
  "abort_timeout Custom BatchRequest = None \<and>
   translateWithCustomAPI (js ''https://example.org/t'') (js ''key'') (js ''Hello'')
     (Rejected (js ''Failed to fetch'')) = Inr (js ''Hello'')"
  by (simp add: translateWithCustomAPI_def js_def)

section \<open>Properties of the cache\<close>

text \<open>
  C5 fails on the code: two different batch texts of the same length that agree on their
  first twenty code units get the same key under the same language pair, and a lookup
  for the second returns the translation stored for the first.
\<close>

theorem cache_key_collision:
  "replicate 20 65 @ [120] \<noteq> replicate 20 65 @ [121::nat] \<and>
   getCacheKey (replicate 20 65 @ [120]) (js ''en'') (js ''zh'') =
   getCacheKey (replicate 20 65 @ [121]) (js ''en'') (js ''zh'') \<and>
   getFromCache (replicate 20 65 @ [121]) (js ''en'') (js ''zh'')
     (addToCache (replicate 20 65 @ [120]) (js ''en'') (js ''zh'') (js ''first'') []) =
   Some (js ''first'')"
  by (simp add: getCacheKey_def getFromCache_def addToCache_def MAX_CACHE_SIZE_def Let_def)


section \<open>Properties of the reconciler\<close>

lemma nth_map_enumerate:
  "idx < length xs \<Longrightarrow> map f (enumerate 0 xs) ! idx = f (idx, xs ! idx)"
  by (simp add: nth_enumerate_eq)

lemma show_nat_not_empty: "show_nat n \<noteq> []"
  by (subst show_nat.simps) simp

lemma shortfall_reason_not_empty: "shortfall_reason a b \<noteq> []"
  by (simp add: shortfall_reason_def)

lemma assign_zhipu_short_nth:
  assumes "length translatedLines < length paras" and "idx < length paras"
  shows "assign_zhipu translatedLines paras ! idx =
     (if idx < length translatedLines
      then (paras ! idx)\<lparr>translatedText := Some (translatedLines ! idx)\<rparr>
      else (paras ! idx)\<lparr>translatedText := None,
             skipReason := Some (shortfall_reason (length translatedLines) (length paras))\<rparr>)"
proof -
  have "assign_zhipu translatedLines paras =
     map (\<lambda>(idx, para).
               if idx < length translatedLines
               then para\<lparr>translatedText := Some (translatedLines ! idx)\<rparr>
               else para\<lparr>translatedText := None,
                         skipReason :=
                           Some (shortfall_reason (length translatedLines) (length paras))\<rparr>)
          (enumerate 0 paras)"
    using assms(1) by (simp add: assign_zhipu_def Let_def)
  then show ?thesis using assms(2) by (simp only: nth_map_enumerate split: prod.split) simp
qed

lemma assign_keep_original_nth:
  assumes "idx < length paras"
  shows "assign_keep_original translatedLines paras ! idx =
     (if idx < length translatedLines
      then (paras ! idx)\<lparr>translatedText := Some (translatedLines ! idx)\<rparr>
      else (paras ! idx)\<lparr>translatedText := Some (originalText (paras ! idx))\<rparr>)"
  unfolding assign_keep_original_def using assms
  by (simp only: nth_map_enumerate split: prod.split) simp

lemma length_assign:
  "length (assign_zhipu translatedLines paras) = length paras"
  "length (assign_keep_original translatedLines paras) = length paras"
  by (simp_all add: assign_zhipu_def assign_keep_original_def Let_def)

text \<open>
  C4, as the code has it. When there are fewer lines than fragments, both assignments give
  the lines in order to the first fragments. A fragment beyond them is left without a
  translation for the retry pass: \<open>translateWithZhipuAI\<close> sets its \<open>translatedText\<close>
  to \<open>null\<close> and records a non-empty \<open>skipReason\<close>; \<open>translateWithOpenRouter\<close> (and
  both functions on a cached result) set \<open>translatedText\<close> to the fragment's own
  original text, which the retry pass reads as untranslated, and leave \<open>skipReason\<close>
  as it is. No line of the response is given to such a fragment.
\<close>

theorem shortfall_assignment:
  assumes "length translatedLines < length paras" and "idx < length paras"
  shows "length (assign_zhipu translatedLines paras) = length paras \<and>
         length (assign_keep_original translatedLines paras) = length paras \<and>
         (idx < length translatedLines \<longrightarrow>
            assign_zhipu translatedLines paras ! idx =
              (paras ! idx)\<lparr>translatedText := Some (translatedLines ! idx)\<rparr> \<and>
            assign_keep_original translatedLines paras ! idx =
              (paras ! idx)\<lparr>translatedText := Some (translatedLines ! idx)\<rparr>) \<and>
         (length translatedLines \<le> idx \<longrightarrow>
            assign_zhipu translatedLines paras ! idx =
              (paras ! idx)\<lparr>translatedText := None,
                skipReason := Some (shortfall_reason (length translatedLines) (length paras))\<rparr> \<and>
            shortfall_reason (length translatedLines) (length paras) \<noteq> [] \<and>
            assign_keep_original translatedLines paras ! idx =
              (paras ! idx)\<lparr>translatedText := Some (originalText (paras ! idx))\<rparr> \<and>
            untranslated (assign_zhipu translatedLines paras ! idx) \<and>
            untranslated (assign_keep_original translatedLines paras ! idx))"
  using assms
  by (simp add: assign_zhipu_short_nth assign_keep_original_nth length_assign
      shortfall_reason_not_empty untranslated_def)

lemma two_segments_lines:
  "zhipu_lines two_segments 3 = [js ''Un'', js ''Deux'']"
  "openrouter_lines two_segments = [js ''Un'', js ''Deux'']"
  by (simp_all add: zhipu_lines_def openrouter_lines_def two_segments_def js_def trimmed_lines_def
      js_trim_def is_js_space_def Let_def abs_diff_def clean_markers_def
      strip_leading_marker_def match_marker_def)

theorem shortfall_assignment_witness:
  "assign_zhipu (zhipu_lines two_segments 3) three_fragments ! 2 =
     (para_of 2 (js ''Three''))\<lparr>translatedText := None,
        skipReason := Some (shortfall_reason 2 3)\<rparr> \<and>
   assign_zhipu (zhipu_lines two_segments 3) three_fragments ! 0 =
     (para_of 0 (js ''One''))\<lparr>translatedText := Some (js ''Un'')\<rparr>"
proof -
  define L where "L = zhipu_lines two_segments 3"
  have L: "L = [js ''Un'', js ''Deux'']" by (simp add: L_def two_segments_lines)
  have n: "length L = 2" "length three_fragments = 3"
    "three_fragments ! 2 = para_of 2 (js ''Three'')"
    "three_fragments ! 0 = para_of 0 (js ''One'')" "L ! 0 = js ''Un''"
    by (simp_all add: L three_fragments_def)
  have l: "length L < length three_fragments" by (simp add: n)
  have i: "(2::nat) < length three_fragments" "(0::nat) < length three_fragments"
    by (simp_all add: n)
  have "length L \<le> 2" "0 < length L" by (simp_all add: n)
  with shortfall_assignment [OF l i(1)] shortfall_assignment [OF l i(2)]
  have "assign_zhipu L three_fragments ! 2 =
          (three_fragments ! 2)\<lparr>translatedText := None,
             skipReason := Some (shortfall_reason (length L) (length three_fragments))\<rparr>"
    and "assign_zhipu L three_fragments ! 0 =
          (three_fragments ! 0)\<lparr>translatedText := Some (L ! 0)\<rparr>"
    by blast+
  then show ?thesis unfolding L_def [symmetric] by (simp add: n)
qed

text \<open>
  C4 as stated fails in \<open>translateWithOpenRouter\<close>: with three fragments and a response
  of two segments the third fragment's \<open>translatedText\<close> is its original text, not
  \<open>null\<close>, and no \<open>skipReason\<close> is recorded.
\<close>

theorem shortfall_openrouter_counterexample:
  "length (openrouter_lines two_segments) = 2 \<and> length three_fragments = 3 \<and>
   translatedText (assign_keep_original (openrouter_lines two_segments) three_fragments ! 2)
     = Some (js ''Three'') \<and>
   skipReason (assign_keep_original (openrouter_lines two_segments) three_fragments ! 2) = None"
  by (simp add: two_segments_lines three_fragments_def assign_keep_original_def para_of_def
      enumerate_eq_zip upt_rec numeral_2_eq_2 numeral_3_eq_3)


section \<open>Properties of the concurrency gate\<close>

text \<open>
  As long as every resolved caller continues before the next call of \<open>acquire\<close>, the
  counter stays within the maximum.
\<close>

lemma handoff_step_inv:
  assumes "gate_inv m s" and "sem_step m s e = Some s'"
    and "\<not> (case e of Acquire t \<Rightarrow> resolved s \<noteq> [] | _ \<Rightarrow> False)"
  shows "gate_inv m s'"
proof (cases e)
  case (Acquire t)
  with assms show ?thesis by (auto simp: gate_inv_def split: if_splits)
next
  case (Resume t)
  with assms have t: "t \<in> set (resolved s)" by (auto split: if_splits)
  then obtain n where "length (resolved s) = Suc n" by (cases "resolved s") auto
  with assms Resume t show ?thesis
    by (auto simp: gate_inv_def length_remove1 split: if_splits)
next
  case (Settle t)
  with assms have t: "t \<in> set (inside s)" by (auto split: if_splits)
  then obtain n where "length (inside s) = Suc n" by (cases "inside s") auto
  with assms Settle t show ?thesis
    by (auto simp: gate_inv_def length_remove1 Let_def split: if_splits list.splits)
qed

lemma handoff_run_inv:
  "gate_inv m s \<Longrightarrow> handoff_run m s es = Some s' \<Longrightarrow> gate_inv m s'"
proof (induction es arbitrary: s)
  case Nil
  then show ?case by simp
next
  case (Cons e es)
  from Cons.prems(2) obtain s1 where
    c: "\<not> (case e of Acquire t \<Rightarrow> resolved s \<noteq> [] | _ \<Rightarrow> False)"
    and s1: "sem_step m s e = Some s1" and r: "handoff_run m s1 es = Some s'"
    by (auto split: if_splits option.splits)
  from handoff_step_inv [OF Cons.prems(1) s1 c] have "gate_inv m s1" .
  from Cons.IH [OF this r] show ?case .
qed

lemma gate_bound_under_handoff:
  assumes "handoff_run maxConcurrent createSemaphore es = Some s"
  shows "running s \<le> maxConcurrent"
proof -
  have "gate_inv maxConcurrent createSemaphore"
    by (simp add: gate_inv_def createSemaphore_def)
  from handoff_run_inv [OF this assms] show ?thesis by (simp add: gate_inv_def)
qed

text \<open>
  C8 fails on the code. With \<open>maxConcurrent = 1\<close>: caller 1 enters, caller 2 waits in the
  queue; caller 1's task settles, so \<open>running\<close> drops to 0 and caller 2's promise is
  resolved; before caller 2's continuation runs, caller 3 calls \<open>acquire\<close>, finds
  \<open>running = 0\<close> and enters; then caller 2 continues and increments \<open>running\<close> without
  testing it again. Two tasks are inside and \<open>running = 2\<close>.
\<close>

theorem gate_bound_violated:
  "sem_run 1 createSemaphore [Acquire 1, Acquire 2, Settle 1, Acquire 3, Resume 2] =
     Some \<lparr>running = 2, queue = [], resolved = [], inside = [3, 2]\<rparr>"
  by (simp add: createSemaphore_def)


section \<open>Properties of the extractor\<close>

lemma blank_iff: "blank s \<longleftrightarrow> (\<forall>c \<in> set s. is_js_space c)"
proof
  assume "blank s"
  then have a: "\<forall>x \<in> set (dropWhile is_js_space s). is_js_space x"
    by (simp add: blank_def js_trim_def dropWhile_eq_Nil_conv)
  have "dropWhile is_js_space s = []"
  proof (rule ccontr)
    assume n: "dropWhile is_js_space s \<noteq> []"
    then have "\<not> is_js_space (hd (dropWhile is_js_space s))" by (rule hd_dropWhile)
    moreover have "hd (dropWhile is_js_space s) \<in> set (dropWhile is_js_space s)"
      using n by simp
    ultimately show False using a by blast
  qed
  then show "\<forall>c \<in> set s. is_js_space c" by (simp add: dropWhile_eq_Nil_conv)
next
  assume "\<forall>c \<in> set s. is_js_space c"
  then have d: "dropWhile is_js_space s = []" by (simp add: dropWhile_eq_Nil_conv)
  show "blank s" unfolding blank_def js_trim_def d by simp
qed

lemma blank_append: "blank (a @ b) \<longleftrightarrow> blank a \<and> blank b"
  by (auto simp: blank_iff)

lemma blank_Nil: "blank []"
  by (simp add: blank_iff)

lemma not_blank_trim: "\<not> blank s \<Longrightarrow> js_trim s \<noteq> []"
  by (simp add: blank_def)

lemma get_node_append:
  "get_node n (e @ q) = (case get_node n e of Some m \<Rightarrow> get_node m q | None \<Rightarrow> None)"
  by (induction e arbitrary: n) (auto split: node.splits)

lemma br_void_sub: "br_void n \<Longrightarrow> get_node n e = Some m \<Longrightarrow> br_void m"
proof (induction e arbitrary: n)
  case Nil
  then show ?case by simp
next
  case (Cons i e)
  then obtain t atts cs where n: "n = Element t atts cs" and i: "i < length cs"
    and g: "get_node (cs ! i) e = Some m"
    by (auto split: node.splits if_splits)
  have "br_void (cs ! i)" using Cons.prems(1) n i by simp
  from Cons.IH [OF this g] show ?case .
qed

lemma text_nodes_are_text:
  "p \<in> set (text_nodes n) \<Longrightarrow> \<exists>s. get_node n p = Some (Text s)"
  "p \<in> set (text_nodes_from i cs) \<Longrightarrow>
     \<exists>j q. p = (i + j) # q \<and> j < length cs \<and> q \<in> set (text_nodes (cs ! j)) \<and>
           (\<exists>s. get_node (cs ! j) q = Some (Text s))"
proof (induction n and i cs arbitrary: p and p rule: text_nodes_text_nodes_from.induct)
  case (1 s)
  then show ?case by simp
next
  case (2 d)
  then show ?case by simp
next
  case (3 t atts cs)
  from 3(1) [of p] 3(2) obtain j q where "p = j # q" "j < length cs"
    "\<exists>s. get_node (cs ! j) q = Some (Text s)" by auto
  then show ?case by auto
next
  case (4 i)
  then show ?case by simp
next
  case (5 i c cs)
  from 5(3) consider (a) "p \<in> set (map ((#) i) (text_nodes c))"
    | (b) "p \<in> set (text_nodes_from (Suc i) cs)" by auto
  then show ?case
  proof cases
    case a
    then obtain q where q: "p = i # q" "q \<in> set (text_nodes c)" by auto
    from 5(1) [OF q(2)] obtain s where "get_node c q = Some (Text s)" by blast
    with q show ?thesis by (intro exI [of _ 0] exI [of _ q]) simp
  next
    case b
    from 5(2) [OF b] obtain j q where "p = (Suc i + j) # q" "j < length cs"
      "q \<in> set (text_nodes (cs ! j))" "\<exists>s. get_node (cs ! j) q = Some (Text s)" by blast
    then show ?thesis by (intro exI [of _ "Suc j"] exI [of _ q]) simp
  qed
qed

lemma find_block_prefix:
  "find_block body e = Some b \<Longrightarrow> prefix b e \<and> b \<noteq> []"
proof (induction body e rule: find_block.induct)
  case (1 body e)
  show ?case
  proof (cases "e = []")
    case True
    with 1(2) show ?thesis by (simp add: find_block.simps)
  next
    case False
    show ?thesis
    proof (cases "case tag_at body e of Some t \<Rightarrow> t \<in> set BLOCK_TAGS | None \<Rightarrow> False")
      case True
      with False 1(2) show ?thesis by (simp add: find_block.simps)
    next
      case F: False
      with False 1(2) have "find_block body (butlast e) = Some b"
        by (simp add: find_block.simps)
      from 1(1) [OF False F this] have "prefix b (butlast e)" "b \<noteq> []" by auto
      moreover have "prefix (butlast e) e" by (cases e rule: rev_cases) auto
      ultimately show ?thesis by (meson prefix_order.order_trans)
    qed
  qed
qed


lemma blank_Cons: "blank (c # s) \<longleftrightarrow> is_js_space c \<and> blank s"
  by (simp add: blank_iff)

lemma br_child_nonempty:
  "\<forall>x \<in> set (fst st). x \<noteq> [] \<Longrightarrow> \<forall>x \<in> set (fst (br_child st c)). x \<noteq> []"
proof -
  assume a: "\<forall>x \<in> set (fst st). x \<noteq> []"
  obtain subs cur where st: "st = (subs, cur)" by (cases st)
  show ?thesis using a unfolding st
    by (cases c) (auto simp: Let_def not_blank_trim simp del: textContent.simps)
qed

lemma foldl_br_child_nonempty:
  "\<forall>x \<in> set (fst st). x \<noteq> [] \<Longrightarrow> \<forall>x \<in> set (fst (foldl br_child st cs)). x \<noteq> []"
proof (induction cs arbitrary: st)
  case Nil
  then show ?case by simp
next
  case (Cons d cs)
  from br_child_nonempty [OF Cons.prems] have "\<forall>x \<in> set (fst (br_child st d)). x \<noteq> []" .
  from Cons.IH [OF this] show ?case by simp
qed

lemma br_paragraphs_nonempty_parts: "\<forall>x \<in> set (br_paragraphs cs). x \<noteq> []"
proof -
  obtain subs cur where f: "foldl br_child ([], []) cs = (subs, cur)"
    by (cases "foldl br_child ([], []) cs")
  have "\<forall>x \<in> set (fst (foldl br_child ([], []) cs)). x \<noteq> []"
    by (rule foldl_br_child_nonempty) simp
  then show ?thesis
    by (auto simp: br_paragraphs_def f not_blank_trim)
qed

text \<open>Pushing a list of non-empty texts for one block.\<close>

lemma push_all:
  assumes "\<forall>x \<in> set ts. x \<noteq> []"
  shows "set paras \<subseteq> set (foldl (\<lambda>ps paraText.
           if length paraText \<ge> 1 then push_block e paraText paraText ps else ps) paras ts)"
    and "ts \<noteq> [] \<Longrightarrow> \<exists>f \<in> set (foldl (\<lambda>ps paraText.
           if length paraText \<ge> 1 then push_block e paraText paraText ps else ps) paras ts).
           \<not> isInline f \<and> element f = e"
  using assms
proof (induction ts arbitrary: paras)
  case Nil
  { case 1 show ?case by simp }
  { case 2 then show ?case by simp }
next
  case (Cons t ts)
  let ?F = "\<lambda>ps paraText. if length paraText \<ge> 1 then push_block e paraText paraText ps else ps"
  {
    case 1
    then have t: "t \<noteq> []" and r: "\<forall>x \<in> set ts. x \<noteq> []" by auto
    from t have st: "?F paras t = push_block e t t paras" by (cases t) auto
    from Cons.IH(1) [OF r, of "push_block e t t paras"]
    have "set (push_block e t t paras) \<subseteq> set (foldl ?F (push_block e t t paras) ts)" .
    moreover have "set paras \<subseteq> set (push_block e t t paras)" by (auto simp: push_block_def)
    ultimately show ?case using st by auto
  }
  {
    case 2
    then have t: "t \<noteq> []" and r: "\<forall>x \<in> set ts. x \<noteq> []" by auto
    from t have st: "?F paras t = push_block e t t paras" by (cases t) auto
    from Cons.IH(1) [OF r, of "push_block e t t paras"]
    have "set (push_block e t t paras) \<subseteq> set (foldl ?F (push_block e t t paras) ts)" .
    moreover have "\<exists>f \<in> set (push_block e t t paras). \<not> isInline f \<and> element f = e"
      by (simp add: push_block_def)
    ultimately show ?case using st by auto
  }
qed


lemma sublist_dropWhile_core:
  "sublist c w \<Longrightarrow> c \<noteq> [] \<Longrightarrow> \<not> P (hd c) \<Longrightarrow> sublist c (dropWhile P w)"
proof (induction w)
  case Nil
  then show ?case by simp
next
  case (Cons x w)
  show ?case
  proof (cases "P x")
    case True
    from Cons.prems(1) have "prefix c (x # w) \<or> sublist c w" by (simp add: sublist_Cons_right)
    moreover have "\<not> prefix c (x # w)"
    proof
      assume "prefix c (x # w)"
      with Cons.prems(2) have "hd c = x" by (cases c) auto
      with True Cons.prems(3) show False by simp
    qed
    ultimately have "sublist c w" by simp
    from Cons.IH [OF this Cons.prems(2,3)] True show ?thesis by simp
  next
    case False
    with Cons.prems(1) show ?thesis by simp
  qed
qed

lemma sublist_trim_core:
  assumes "sublist c w" and "c \<noteq> []" and "\<not> is_js_space (hd c)" and "\<not> is_js_space (last c)"
  shows "sublist c (js_trim w)"
proof -
  from sublist_dropWhile_core [where P = is_js_space, OF assms(1,2,3)]
  have 1: "sublist c (dropWhile is_js_space w)" .
  then have "sublist (rev c) (rev (dropWhile is_js_space w))" by simp
  moreover have "rev c \<noteq> []" using assms(2) by simp
  moreover have "\<not> is_js_space (hd (rev c))" using assms(2,4) by (simp add: hd_rev)
  ultimately have "sublist (rev c) (dropWhile is_js_space (rev (dropWhile is_js_space w)))"
    by (rule sublist_dropWhile_core [where P = is_js_space])
  then have "sublist (rev (rev c)) (rev (dropWhile is_js_space (rev (dropWhile is_js_space w))))"
    by (simp only: sublist_rev)
  then show ?thesis by (simp add: js_trim_def)
qed

lemma trim_sublist: "sublist (js_trim s) s"
proof -
  have "sublist (dropWhile is_js_space (rev (dropWhile is_js_space s))) (rev (dropWhile is_js_space s))"
    by simp
  then have "sublist (js_trim s) (dropWhile is_js_space s)"
    unfolding js_trim_def by (simp add: sublist_rev_left)
  moreover have "sublist (dropWhile is_js_space s) s" by simp
  ultimately show ?thesis by (rule sublist_order.order_trans)
qed

lemma trim_ends:
  assumes "\<not> blank s"
  shows "js_trim s \<noteq> []" and "\<not> is_js_space (hd (js_trim s))"
    and "\<not> is_js_space (last (js_trim s))"
proof -
  let ?d = "dropWhile is_js_space s"
  let ?e = "dropWhile is_js_space (rev ?d)"
  from assms show ne: "js_trim s \<noteq> []" by (simp add: blank_def)
  then have e: "?e \<noteq> []" by (simp add: js_trim_def)
  have d: "?d \<noteq> []"
  proof
    assume z: "?d = []"
    have "?e = []" unfolding z by simp
    with e show False by simp
  qed
  have "\<not> is_js_space (hd ?e)" using e by (rule hd_dropWhile)
  then show "\<not> is_js_space (last (js_trim s))"
    using e by (simp add: js_trim_def last_rev)
  have "last ?e = last (rev ?d)"
  proof -
    have "rev ?d = takeWhile is_js_space (rev ?d) @ ?e" by simp
    then show ?thesis using e by (metis last_appendR)
  qed
  also have "\<dots> = hd ?d" using d by (simp add: last_rev)
  finally have "hd (js_trim s) = hd ?d" using e by (simp add: js_trim_def hd_rev)
  moreover have "\<not> is_js_space (hd ?d)" using d by (rule hd_dropWhile)
  ultimately show "\<not> is_js_space (hd (js_trim s))" by simp
qed

lemma trim_in_trim:
  assumes "sublist s w" and "\<not> blank s"
  shows "sublist (js_trim s) (js_trim w)"
proof -
  have "sublist (js_trim s) w"
    using trim_sublist assms(1) by (rule sublist_order.order_trans)
  then show ?thesis using trim_ends [OF assms(2)] by (rule sublist_trim_core)
qed

lemma sublist_not_blank:
  assumes "sublist c w" and "c \<noteq> []" and "\<not> is_js_space (hd c)"
  shows "\<not> blank w"
proof -
  have "hd c \<in> set c" using assms(2) by simp
  with set_mono_sublist [OF assms(1)] have "hd c \<in> set w" by blast
  with assms(3) show ?thesis by (auto simp: blank_iff)
qed

lemma textContent_sublist:
  "get_node n q = Some (Text s) \<Longrightarrow> sublist s (textContent n)"
proof (induction q arbitrary: n)
  case Nil
  then show ?case by simp
next
  case (Cons i q)
  then obtain t atts cs where n: "n = Element t atts cs" and i: "i < length cs"
    and g: "get_node (cs ! i) q = Some (Text s)"
    by (auto split: node.splits if_splits)
  from Cons.IH [OF g] have 1: "sublist s (textContent (cs ! i))" .
  have "cs = take i cs @ cs ! i # drop (Suc i) cs" using i by (rule id_take_nth_drop)
  then have "textContent n =
      concat (map textContent (take i cs)) @ textContent (cs ! i) @
      concat (map textContent (drop (Suc i) cs))"
    unfolding n textContent.simps by (metis concat.simps(2) concat_append list.simps(9) map_append)
  then have "sublist (textContent (cs ! i)) (textContent n)" by simp
  with 1 show ?case by (rule sublist_order.order_trans)
qed


lemma sublist_trans: "sublist a b \<Longrightarrow> sublist b c \<Longrightarrow> sublist a c"
  by (rule sublist_order.order_trans)

lemma br_child_carries:
  assumes "carries c st" and "c \<noteq> []" and "\<not> is_js_space (hd c)"
    and "\<not> is_js_space (last c)"
  shows "carries c (br_child st d)"
proof -
  obtain subs cur where st: "st = (subs, cur)" by (cases st)
  show ?thesis
  proof (cases "\<exists>x \<in> set subs. sublist c x")
    case True
    then show ?thesis unfolding st
      by (cases d) (auto simp: carries_def Let_def simp del: textContent.simps)
  next
    case False
    with assms(1) st have cur: "sublist c cur" by (simp add: carries_def)
    then have nb: "\<not> blank cur" using assms(2,3) by (rule sublist_not_blank)
    have app: "sublist c (cur @ x)" for x
      using cur by (rule sublist_trans) simp
    have tr: "sublist c (js_trim cur)" using cur assms(2,3,4) by (rule sublist_trim_core)
    show ?thesis
    proof (cases d)
      case (Text t)
      then show ?thesis unfolding st using cur app by (simp add: carries_def)
    next
      case (Comment x)
      then show ?thesis unfolding st using cur by (simp add: carries_def)
    next
      case (Element t atts cs)
      show ?thesis unfolding st Element using cur app nb tr
        by (simp add: carries_def Let_def del: textContent.simps)
    qed
  qed
qed

lemma br_child_takes:
  assumes "sublist c (textContent d)" and "c \<noteq> []" and "\<not> is_js_space (hd c)"
    and "case d of Element t atts cs \<Rightarrow> t \<noteq> ''br'' | _ \<Rightarrow> True"
  shows "carries c (br_child st d)"
proof -
  obtain subs cur where st: "st = (subs, cur)" by (cases st)
  have nb: "\<not> blank (textContent d)" using assms(1,2,3) by (rule sublist_not_blank)
  then have ne: "textContent d \<noteq> []" using blank_Nil by metis
  have app: "sublist c (x @ textContent d)" for x
    using assms(1) by (rule sublist_trans) simp
  show ?thesis
  proof (cases d)
    case (Text t)
    with nb app [of cur] show ?thesis unfolding st by (simp add: carries_def)
  next
    case (Comment x)
    with ne show ?thesis by simp
  next
    case (Element t atts cs)
    with assms(4) have t: "t \<noteq> ''br''" by simp
    have a2: "sublist c (cur @ 32 # textContent (Element t atts cs))"
      using app [of "cur @ [32]"] Element by simp
    have a0: "sublist c (textContent (Element t atts cs))" using assms(1) Element by simp
    show ?thesis
    proof (cases "t = ''a''")
      case True
      show ?thesis unfolding st Element using nb ne app [of cur] a2 a0 Element True
        by (auto simp: carries_def Let_def simp del: textContent.simps)
    next
      case False
      show ?thesis unfolding st Element using nb ne t app [of cur] Element False
        by (auto simp: carries_def Let_def simp del: textContent.simps)
    qed
  qed
qed

lemma foldl_br_child_carries:
  assumes "c \<noteq> []" and "\<not> is_js_space (hd c)" and "\<not> is_js_space (last c)"
  shows "carries c st \<Longrightarrow> carries c (foldl br_child st cs)"
proof (induction cs arbitrary: st)
  case Nil
  then show ?case by simp
next
  case (Cons d cs)
  from br_child_carries [OF Cons.prems assms] have "carries c (br_child st d)" .
  from Cons.IH [OF this] show ?case by simp
qed

lemma foldl_br_child_takes:
  assumes "c \<noteq> []" and "\<not> is_js_space (hd c)" and "\<not> is_js_space (last c)"
    and "sublist c (textContent d)" and "case d of Element t atts cs \<Rightarrow> t \<noteq> ''br'' | _ \<Rightarrow> True"
  shows "d \<in> set cs \<Longrightarrow> carries c (foldl br_child st cs)"
proof (induction cs arbitrary: st)
  case Nil
  then show ?case by simp
next
  case (Cons x cs)
  show ?case
  proof (cases "d = x")
    case True
    from br_child_takes [OF assms(4,1,2,5), of st] True have "carries c (br_child st x)" by simp
    from foldl_br_child_carries [OF assms(1,2,3) this] show ?thesis by simp
  next
    case False
    with Cons.prems have "d \<in> set cs" by simp
    from Cons.IH [OF this] show ?thesis by simp
  qed
qed

lemma br_paragraphs_carries:
  assumes "c \<noteq> []" and "\<not> is_js_space (hd c)" and "\<not> is_js_space (last c)"
    and "sublist c (textContent d)" and "case d of Element t atts cs \<Rightarrow> t \<noteq> ''br'' | _ \<Rightarrow> True"
    and "d \<in> set cs"
  shows "\<exists>x \<in> set (br_paragraphs cs). sublist c x"
proof -
  obtain subs cur where f: "foldl br_child ([], []) cs = (subs, cur)"
    by (cases "foldl br_child ([], []) cs")
  from foldl_br_child_takes [OF assms(1-5), of cs "([], [])", OF assms(6)] f
  have k: "(\<exists>x \<in> set subs. sublist c x) \<or> sublist c cur" by (simp add: carries_def)
  show ?thesis
  proof (cases "\<exists>x \<in> set subs. sublist c x")
    case True
    then show ?thesis by (auto simp: br_paragraphs_def f)
  next
    case False
    with k have cur: "sublist c cur" by simp
    then have "\<not> blank cur" using assms(1,2) by (rule sublist_not_blank)
    moreover have "sublist c (js_trim cur)" using cur assms(1,2,3) by (rule sublist_trim_core)
    ultimately show ?thesis by (auto simp: br_paragraphs_def f)
  qed
qed

lemma push_all_each:
  assumes "\<forall>x \<in> set ts. x \<noteq> []" and "x \<in> set ts"
  shows "\<exists>f \<in> set (foldl (\<lambda>ps paraText.
           if length paraText \<ge> 1 then push_block e paraText paraText ps else ps) paras ts).
           \<not> isInline f \<and> element f = e \<and> originalText f = x"
  using assms
proof (induction ts arbitrary: paras)
  case Nil
  then show ?case by simp
next
  case (Cons t ts)
  let ?F = "\<lambda>ps paraText. if length paraText \<ge> 1 then push_block e paraText paraText ps else ps"
  from Cons.prems have t: "t \<noteq> []" and r: "\<forall>x \<in> set ts. x \<noteq> []" by auto
  from t have st: "?F paras t = push_block e t t paras" by (cases t) auto
  show ?case
  proof (cases "x \<in> set ts")
    case True
    from Cons.IH [OF r True, of "push_block e t t paras"] st show ?thesis by simp
  next
    case False
    with Cons.prems(2) have x: "x = t" by simp
    have "\<exists>f \<in> set (push_block e t t paras). \<not> isInline f \<and> element f = e \<and> originalText f = x"
      by (simp add: push_block_def x)
    moreover have "set (push_block e t t paras) \<subseteq> set (foldl ?F (push_block e t t paras) ts)"
      by (rule push_all(1) [OF r])
    ultimately show ?thesis using st by auto
  qed
qed

lemma block_push_covers:
  assumes wf: "br_void body" and n: "get_node body e = Some n"
    and ps': "ps' = (if innerHTML_has_br n \<and> length (js_trim (textContent n)) \<ge> 1
                    then foldl (\<lambda>ps paraText.
                           if length paraText \<ge> 1 then push_block e paraText paraText ps else ps)
                         ps (br_paragraphs (children n))
                    else if length (js_trim (textContent n)) \<ge> 1
                    then push_block e (js_trim (textContent n)) (textContent n) ps
                    else ps)"
  shows "block_covered body e ps'" and "set ps \<subseteq> set ps'"
proof -
  show sub: "set ps \<subseteq> set ps'"
    unfolding ps'
    using push_all(1) [OF br_paragraphs_nonempty_parts, of ps e "children n"]
    by (auto simp: push_block_def)
  show "block_covered body e ps'"
    unfolding block_covered_def
  proof (intro allI impI)
    fix q s
    assume a: "q \<noteq> [] \<and> get_node body (e @ q) = Some (Text s) \<and> \<not> blank s"
    then have nq: "get_node n q = Some (Text s)" and nb: "\<not> blank s" and q: "q \<noteq> []"
      using n by (simp_all add: get_node_append)
    from q nq obtain t atts cs i q' where el: "n = Element t atts cs" and qi: "q = i # q'"
      and i: "i < length cs" and gi: "get_node (cs ! i) q' = Some (Text s)"
      by (cases q; cases n) (auto split: if_splits)
    note ends = trim_ends [OF nb]
    have sn: "sublist s (textContent n)" using nq by (rule textContent_sublist)
    then have nbn: "\<not> blank (textContent n)"
      using nb set_mono_sublist by (fastforce simp: blank_iff)
    then have tl: "length (js_trim (textContent n)) \<ge> 1" by (simp add: blank_def Suc_le_eq)
    show "\<exists>f \<in> set ps'. \<not> isInline f \<and> element f = e \<and> sublist (js_trim s) (originalText f)"
    proof (cases "innerHTML_has_br n")
      case True
      have "sublist s (textContent (cs ! i))" using gi by (rule textContent_sublist)
      with trim_sublist have cd: "sublist (js_trim s) (textContent (cs ! i))"
        by (rule sublist_trans)
      have mem: "cs ! i \<in> set cs" using i by simp
      have wfn: "br_void n" using br_void_sub [OF wf n] .
      have tag: "case cs ! i of Element t atts cs \<Rightarrow> t \<noteq> ''br'' | _ \<Rightarrow> True"
      proof (cases "cs ! i")
        case (Element t' atts' cs')
        with gi have "q' \<noteq> []" by (cases q') auto
        with gi Element have "cs' \<noteq> []" by (cases q') (auto split: if_splits)
        moreover have "br_void (cs ! i)" using wfn el mem by simp
        ultimately show ?thesis using Element by auto
      qed simp_all
      from br_paragraphs_carries [OF ends cd tag mem]
      obtain x where x: "x \<in> set (br_paragraphs cs)" "sublist (js_trim s) x" by blast
      from push_all_each [OF br_paragraphs_nonempty_parts x(1), of e ps]
      obtain f where "f \<in> set (foldl (\<lambda>ps paraText.
           if length paraText \<ge> 1 then push_block e paraText paraText ps else ps) ps (br_paragraphs cs))"
        "\<not> isInline f" "element f = e" "originalText f = x" by blast
      with x(2) True tl show ?thesis unfolding ps' el by (auto simp: children_def)
    next
      case False
      have "sublist (js_trim s) (js_trim (textContent n))" using sn nb by (rule trim_in_trim)
      with False tl show ?thesis unfolding ps' by (auto simp: push_block_def)
    qed
  qed
qed


lemma accounted_mono:
  "set ps \<subseteq> set ps' \<Longrightarrow> accounted body ps p \<Longrightarrow> accounted body ps' p"
  by (auto simp: accounted_def split: option.splits)

lemma block_covered_mono:
  "set ps \<subseteq> set ps' \<Longrightarrow> block_covered body e ps \<Longrightarrow> block_covered body e ps'"
  unfolding block_covered_def by blast

lemma visit_step_text:
  assumes wf: "br_void body" and acc: "acceptNode body p"
    and tn: "get_node body p = Some (Text s)" and inv: "processed_covered body st"
  shows "processed_covered body (visit_text_node body st p) \<and>
         accounted body (snd (visit_text_node body st p)) p \<and>
         set (snd st) \<subseteq> set (snd (visit_text_node body st p))"
proof -
  obtain pe ps where st: "st = (pe, ps)" by (cases st)
  from tn have ta: "text_at body p = s" by (simp add: text_at_def)
  from acc ta have nb: "\<not> blank s" by (simp add: acceptNode_def)
  then have len: "length (js_trim s) > 0" by (simp add: blank_def)
  show ?thesis
  proof (cases "find_block body (butlast p)")
    case None
    then have v: "visit_text_node body (pe, ps) p = (pe, push_inline p (js_trim s) ps)"
      using len by (simp add: visit_text_node_def ta Let_def)
    have sub: "set ps \<subseteq> set (push_inline p (js_trim s) ps)"
      by (auto simp: push_inline_def)
    have "accounted body (push_inline p (js_trim s) ps) p"
      using None by (simp add: accounted_def push_inline_def ta)
    moreover have "processed_covered body (pe, push_inline p (js_trim s) ps)"
      using inv sub unfolding processed_covered_def st
      by (auto intro: block_covered_mono)
    ultimately show ?thesis using sub unfolding st v by simp
  next
    case (Some e)
    from find_block_prefix [OF Some] have pre: "prefix e (butlast p)" and ne: "e \<noteq> []" by auto
    have pne: "p \<noteq> []" using pre ne by (cases p) auto
    have "prefix (butlast p) p" by (cases p rule: rev_cases) auto
    moreover have "butlast p \<noteq> p" using pne by (cases p rule: rev_cases) auto
    ultimately have sp: "strict_prefix e p"
      using pre by (metis prefix_order.dual_order.strict_trans1 strict_prefix_def prefix_order.order_trans)
    then obtain q where q: "p = e @ q" "q \<noteq> []"
      by (auto simp: strict_prefix_def prefix_def)
    have tq: "get_node body (e @ q) = Some (Text s)" using tn q by simp
    show ?thesis
    proof (cases "e \<in> set pe")
      case True
      then have v: "visit_text_node body (pe, ps) p = (pe, ps)"
        using len Some by (simp add: visit_text_node_def ta Let_def)
      from inv True have "block_covered body e ps" by (simp add: processed_covered_def st)
      with q(2) tq nb obtain f where "f \<in> set ps" "\<not> isInline f" "element f = e"
        "sublist (js_trim s) (originalText f)"
        unfolding block_covered_def by blast
      then have "accounted body ps p" using Some sp by (auto simp: accounted_def ta)
      then show ?thesis using inv unfolding st v by simp
    next
      case False
      from tq obtain n where n: "get_node body e = Some n"
        by (auto simp: get_node_append split: option.splits)
      have te: "text_at body e = textContent n" using n by (simp add: text_at_def)
      define ps' where "ps' = (if innerHTML_has_br n \<and> length (js_trim (textContent n)) \<ge> 1
                    then foldl (\<lambda>ps paraText.
                           if length paraText \<ge> 1 then push_block e paraText paraText ps else ps)
                         ps (br_paragraphs (children n))
                    else if length (js_trim (textContent n)) \<ge> 1
                    then push_block e (js_trim (textContent n)) (textContent n) ps
                    else ps)"
      have v: "visit_text_node body (pe, ps) p = (e # pe, ps')"
        using len Some False
        by (simp add: visit_text_node_def ta te n Let_def ps'_def del: textContent.simps)
      from block_push_covers [OF wf n ps'_def]
      have bc: "block_covered body e ps'" and sub: "set ps \<subseteq> set ps'" by auto
      from bc q(2) tq nb obtain f where "f \<in> set ps'" "\<not> isInline f" "element f = e"
        "sublist (js_trim s) (originalText f)"
        unfolding block_covered_def by blast
      then have "accounted body ps' p" using Some sp by (auto simp: accounted_def ta)
      moreover have "processed_covered body (e # pe, ps')"
        using inv bc sub unfolding processed_covered_def st
        by (auto intro: block_covered_mono)
      ultimately show ?thesis using sub unfolding st v by simp
    qed
  qed
qed

lemma foldl_visit_text:
  assumes "br_void body"
    and "\<forall>p \<in> set qs. acceptNode body p \<and> (\<exists>s. get_node body p = Some (Text s))"
    and "processed_covered body st"
  shows "set (snd st) \<subseteq> set (snd (foldl (visit_text_node body) st qs)) \<and>
         (\<forall>p \<in> set qs. accounted body (snd (foldl (visit_text_node body) st qs)) p)"
  using assms(2,3)
proof (induction qs arbitrary: st)
  case Nil
  then show ?case by simp
next
  case (Cons q qs)
  from Cons.prems(1) obtain s where a: "acceptNode body q" and g: "get_node body q = Some (Text s)"
    by auto
  let ?st1 = "visit_text_node body st q"
  from visit_step_text [OF assms(1) a g Cons.prems(2)]
  have ok1: "processed_covered body ?st1" and c1: "accounted body (snd ?st1) q"
    and m1: "set (snd st) \<subseteq> set (snd ?st1)" by auto
  from Cons.prems(1) have r: "\<forall>p \<in> set qs. acceptNode body p \<and> (\<exists>s. get_node body p = Some (Text s))"
    by simp
  from Cons.IH [OF r ok1]
  have m2: "set (snd ?st1) \<subseteq> set (snd (foldl (visit_text_node body) ?st1 qs))"
    and c2: "\<forall>p \<in> set qs. accounted body (snd (foldl (visit_text_node body) ?st1 qs)) p" by auto
  from accounted_mono [OF m2 c1] c2 m1 m2 show ?case by auto
qed

text \<open>
  C3, as the code has it. In a document as the parser builds it, every text node below the
  body that the walker accepts (its text is not blank and its parent is neither \<open>script\<close>
  nor \<open>style\<close>) is accounted for by an extracted fragment that holds its text: if the
  node has a block-level ancestor below the body, a fragment anchored to the nearest one,
  an element that contains the node, has the node's trimmed text as a part of its original
  text; if it has none, an inline fragment refers to the node itself and has the node's
  trimmed text as its original text. Text nodes outside the body are not visited.
\<close>

theorem body_extraction_no_loss:
  assumes "br_void (doc_body doc)" and "p \<in> set (walker_nodes (doc_body doc))"
  shows "case find_block (doc_body doc) (butlast p) of
           Some e \<Rightarrow>
             \<exists>f \<in> set (document_paragraphs doc).
               \<not> isInline f \<and> element f = e \<and> strict_prefix e p \<and>
               sublist (js_trim (text_at (doc_body doc) p)) (originalText f)
         | None \<Rightarrow>
             \<exists>f \<in> set (document_paragraphs doc).
               isInline f \<and> textNode f = Some p \<and>
               originalText f = js_trim (text_at (doc_body doc) p)"
proof -
  let ?b = "doc_body doc"
  have "\<forall>q \<in> set (walker_nodes ?b). acceptNode ?b q \<and> (\<exists>s. get_node ?b q = Some (Text s))"
    by (auto simp: walker_nodes_def dest: text_nodes_are_text(1))
  from foldl_visit_text [OF assms(1) this, of "([], [])"] assms(2)
  have "accounted ?b (document_paragraphs doc) p"
    by (simp add: document_paragraphs_def extract_paragraphs_def processed_covered_def)
  then show ?thesis by (simp add: accounted_def)
qed

lemma stanza_walker: "walker_nodes stanza_doc = [[0,0],[0,2],[1]]"
  by (simp add: walker_nodes_def stanza_doc_def acceptNode_def text_at_def tag_at_def blank_def js_trim_def js_def is_js_space_def)

lemma stanza_words:
  "js_trim (js ''World'') = js ''World''" "js_trim (js ''loose'') = js ''loose''"
  by (simp_all add: js_def js_trim_def is_js_space_def)

theorem body_extraction_no_loss_witness:
  "(\<exists>f \<in> set (document_paragraphs stanza_document).
      \<not> isInline f \<and> element f = [0] \<and> sublist (js ''World'') (originalText f)) \<and>
   (\<exists>f \<in> set (document_paragraphs stanza_document).
      isInline f \<and> textNode f = Some [1] \<and> originalText f = js ''loose'')"
proof -
  have b: "doc_body stanza_document = stanza_doc" by (simp add: stanza_document_def)
  have wf: "br_void (doc_body stanza_document)" by (simp add: b stanza_doc_def)
  have m: "[0, 2] \<in> set (walker_nodes (doc_body stanza_document))"
    "[1] \<in> set (walker_nodes (doc_body stanza_document))"
    by (simp_all add: b stanza_walker)
  have f: "find_block stanza_doc (butlast [0, 2]) = Some [0]"
     "find_block stanza_doc (butlast [1]) = None"
    by (simp_all add: find_block.simps stanza_doc_def tag_at_def BLOCK_TAGS_def)
  have t: "text_at stanza_doc [0, 2] = js ''World''" "text_at stanza_doc [1] = js ''loose''"
    by (simp_all add: text_at_def stanza_doc_def)
  from body_extraction_no_loss [OF wf m(1)] body_extraction_no_loss [OF wf m(2)]
  show ?thesis unfolding b f t stanza_words by auto
qed

lemma title_words:
  "js_trim (js ''Hello'') = js ''Hello''" "\<not> blank (js ''Hello'')" "\<not> blank (js ''Book'')"
  "js ''Hello'' \<noteq> []"
  by (simp_all add: js_def js_trim_def is_js_space_def blank_def)

text \<open>
  C3 as stated fails for the document as a whole: the text of a \<open>title\<close> element in the
  head is not blank and not inside \<open>script\<close> or \<open>style\<close>, but the walker starts at the
  body, so the only fragment extracted is the paragraph of the body and no fragment holds
  the title's text.
\<close>

theorem head_text_counterexample:
  "get_node (doc_head title_document) [0, 0] = Some (Text (js ''Book'')) \<and>
   \<not> blank (js ''Book'') \<and>
   tag_at (doc_head title_document) [0] = Some ''title'' \<and>
   map originalText (document_paragraphs title_document) = [js ''Hello''] \<and>
   map element (document_paragraphs title_document) = [[0]] \<and>
   map isInline (document_paragraphs title_document) = [False] \<and>
   \<not> sublist (js ''Book'') (js ''Hello'')"
proof -
  let ?b = "Element ''body'' [] [Element ''p'' [] [Text (js ''Hello'')]]"
  have w: "walker_nodes ?b = [[0, 0]]"
    by (simp add: walker_nodes_def acceptNode_def text_at_def tag_at_def title_words)
  have fb: "find_block ?b [0] = Some [0]"
    by (simp add: find_block.simps tag_at_def BLOCK_TAGS_def)
  have t: "text_at ?b [0, 0] = js ''Hello''" "text_at ?b [0] = js ''Hello''"
    by (simp_all add: text_at_def)
  have g: "get_node ?b [0] = Some (Element ''p'' [] [Text (js ''Hello'')])" by simp
  have h: "\<not> innerHTML_has_br (Element ''p'' [] [Text (js ''Hello'')])"
    by (simp add: innerHTML_has_br_def raw_text_tags_def)
  have l: "0 < length (js ''Hello'')" "1 \<le> length (js ''Hello'')"
    "Suc 0 \<le> length (js ''Hello'')"
    using title_words(4) by (simp_all add: Suc_le_eq)
  have v: "visit_text_node ?b ([], []) [0, 0] =
      ([[0]], push_block [0] (js ''Hello'') (js ''Hello'') [])"
    unfolding visit_text_node_def
    by (simp add: Let_def t title_words l fb g h)
  have e: "document_paragraphs title_document = push_block [0] (js ''Hello'') (js ''Hello'') []"
    by (simp add: document_paragraphs_def title_document_def extract_paragraphs_def w v)
  have "\<not> sublist (js ''Book'') (js ''Hello'')"
  proof
    assume "sublist (js ''Book'') (js ''Hello'')"
    from set_mono_sublist [OF this] show False by (simp add: js_def)
  qed
  then show ?thesis
    unfolding e by (simp add: push_block_def title_document_def tag_at_def title_words)
qed


section \<open>Properties of the rewriter\<close>

lemma get_node_update_apart:
  "apart w a \<Longrightarrow> get_node (update_at g w n) a = get_node n a"
proof (induction w arbitrary: a n)
  case Nil
  then show ?case by (simp add: apart_def)
next
  case (Cons i w)
  from Cons.prems obtain j b where a: "a = j # b" by (cases a) (auto simp: apart_def)
  show ?case
  proof (cases n)
    case (Element t atts cs)
    show ?thesis
    proof (cases "i < length cs")
      case True
      show ?thesis
      proof (cases "i = j")
        case e: True
        from Cons.prems a e have "apart w b" by (simp add: apart_def)
        from Cons.IH [OF this] show ?thesis using Element True a e by simp
      next
        case False
        then show ?thesis using Element True a by simp
      qed
    next
      case False
      then show ?thesis using Element by simp
    qed
  qed simp_all
qed

lemma rewrite_para_frame:
  assumes "translated para \<longrightarrow> apart (anchor para) a"
  shows "get_node (fst (rewrite_para paras (body, r) para)) a = get_node body a"
proof (cases "translated para")
  case False
  then show ?thesis by (simp add: rewrite_para_def)
next
  case True
  with assms have ap: "apart (anchor para) a" by simp
  show ?thesis
  proof (cases "textNode para")
    case (Some t)
    with ap have "apart t a" by (simp add: anchor_def)
    then show ?thesis using True Some
      by (simp add: rewrite_para_def get_node_update_apart)
  next
    case None
    with ap have "apart (element para) a" by (simp add: anchor_def)
    then show ?thesis using True None
      by (simp add: rewrite_para_def Let_def get_node_update_apart)
  qed
qed

lemma rewrite_loop_frame:
  assumes "\<forall>g \<in> set qs. translated g \<longrightarrow> apart (anchor g) a"
  shows "get_node (fst (foldl (rewrite_para paras) (body, r) qs)) a = get_node body a"
  using assms
proof (induction qs arbitrary: body r)
  case Nil
  then show ?case by simp
next
  case (Cons q qs)
  obtain body1 r1 where s: "rewrite_para paras (body, r) q = (body1, r1)"
    by (cases "rewrite_para paras (body, r) q")
  from Cons.prems have "translated q \<longrightarrow> apart (anchor q) a" by simp
  from rewrite_para_frame [OF this, of paras body r] s
  have 1: "get_node body1 a = get_node body a" by simp
  from Cons.prems have "\<forall>g \<in> set qs. translated g \<longrightarrow> apart (anchor g) a" by simp
  from Cons.IH [OF this, of body1 r1] 1 s show ?case by simp
qed

lemma cleanup_id:
  "no_metadata n \<Longrightarrow> cleanup n = n"
  "\<forall>c \<in> set cs. no_metadata c \<Longrightarrow> cleanup_list cs = cs"
proof (induction n and cs rule: cleanup_cleanup_list.induct)
  case (5 c cs)
  then have nc: "no_metadata c" by simp
  then have "\<not> metadata_node c" by (cases c) (simp_all add: metadata_node_def)
  with 5 show ?case by simp
qed simp_all

lemma cleanup_list_eq:
  "cleanup_list cs = map cleanup (filter (\<lambda>c. \<not> metadata_node c) cs)"
  by (induction cs) simp_all

lemma filter_nth_kept:
  assumes "i < length cs" and "P (cs ! i)"
  shows "length (filter P (take i cs)) < length (filter P cs)"
    and "filter P cs ! length (filter P (take i cs)) = cs ! i"
proof -
  have "cs = take i cs @ cs ! i # drop (Suc i) cs" using assms(1) by (rule id_take_nth_drop)
  then have "filter P cs = filter P (take i cs) @ filter P (cs ! i # drop (Suc i) cs)"
    by (metis filter_append)
  then have e: "filter P cs = filter P (take i cs) @ cs ! i # filter P (drop (Suc i) cs)"
    using assms(2) by simp
  have "length (filter P (take i cs)) < length (filter P (take i cs) @ cs ! i # filter P (drop (Suc i) cs))"
    by simp
  then show "length (filter P (take i cs)) < length (filter P cs)" by (simp only: e [symmetric])
  have "(filter P (take i cs) @ cs ! i # filter P (drop (Suc i) cs)) ! length (filter P (take i cs)) = cs ! i"
    by simp
  then show "filter P cs ! length (filter P (take i cs)) = cs ! i" by (simp only: e [symmetric])
qed

lemma cleanup_keeps_place:
  "get_node n a = Some sub \<Longrightarrow> no_metadata sub \<Longrightarrow>
   get_node (cleanup n) (cleanup_path n a) = Some sub"
proof (induction a arbitrary: n)
  case Nil
  then show ?case by (simp add: cleanup_id(1))
next
  case (Cons i a)
  from Cons.prems(1) obtain t atts cs where n: "n = Element t atts cs" and i: "i < length cs"
    and g: "get_node (cs ! i) a = Some sub"
    by (auto split: node.splits if_splits)
  have nm: "\<not> metadata_node (cs ! i)"
  proof
    assume m: "metadata_node (cs ! i)"
    then obtain s where s: "cs ! i = Text s" by (cases "cs ! i") (simp_all add: metadata_node_def)
    with g have "sub = Text s" by (cases a) simp_all
    with Cons.prems(2) m s show False by simp
  qed
  let ?P = "\<lambda>c. \<not> metadata_node c"
  let ?j = "length (filter ?P (take i cs))"
  from filter_nth_kept [of i cs ?P, OF i nm]
  have j: "?j < length (filter ?P cs)" "filter ?P cs ! ?j = cs ! i" by auto
  from Cons.IH [OF g Cons.prems(2)]
  have "get_node (cleanup (cs ! i)) (cleanup_path (cs ! i) a) = Some sub" .
  then show ?case using n j by (simp add: cleanup_list_eq)
qed

lemma cleanup_no_metadata:
  "\<not> metadata_node n \<Longrightarrow> no_metadata (cleanup n)"
  "\<forall>c \<in> set (cleanup_list cs). no_metadata c"
proof (induction n and cs rule: cleanup_cleanup_list.induct)
  case (1 s)
  then show ?case by simp
next
  case (2 d)
  then show ?case by simp
next
  case (3 t atts cs)
  then show ?case by simp
next
  case 4
  then show ?case by simp
next
  case (5 c cs)
  then show ?case by simp
qed

lemma update_at_element: "is_element n \<Longrightarrow> is_element (update_at (set_children new) p n)"
  "is_element n \<Longrightarrow> is_element (update_at (set_text s) p n)"
  by (cases p; cases n; simp add: is_element_def set_children_def set_text_def)+

lemma rewrite_para_element:
  "is_element (fst st) \<Longrightarrow> is_element (fst (rewrite_para paras st para))"
  by (cases st) (auto simp: rewrite_para_def Let_def update_at_element split: option.splits)

lemma rewrite_loop_element:
  "is_element (fst st) \<Longrightarrow> is_element (fst (foldl (rewrite_para paras) st qs))"
  by (induction qs arbitrary: st) (simp_all add: rewrite_para_element)

lemma rewrite_document_no_metadata:
  assumes "is_element body"
  shows "no_metadata (rewrite_document paras body)"
proof -
  from rewrite_loop_element [of "(body, [])" paras paras] assms
  have "is_element (fst (foldl (rewrite_para paras) (body, []) paras))" by simp
  then have "\<not> metadata_node (fst (foldl (rewrite_para paras) (body, []) paras))"
    by (auto simp: is_element_def metadata_node_def split: node.splits)
  then show ?thesis unfolding rewrite_document_def by (rule cleanup_no_metadata(1))
qed

text \<open>
  What the rewriting stage keeps: for a fragment with no translated text, the node it is
  anchored to is still in the document that is serialised, at its place and with all of
  its content, if no other fragment that is translated is written to that node, into it
  or around it, and no text node of it matches a metadata pattern. And the document that
  is serialised holds no text node that matches a metadata pattern.
\<close>

lemma apart_anchor_kept:
  assumes "f \<in> set paras" and "untranslated f"
    and "get_node body (anchor f) = Some sub"
    and "\<forall>g \<in> set paras. g \<noteq> f \<and> translated g \<longrightarrow> apart (anchor g) (anchor f)"
    and "no_metadata sub"
  shows "get_node (rewrite_document paras body)
           (cleanup_path (fst (foldl (rewrite_para paras) (body, []) paras)) (anchor f)) = Some sub"
proof -
  have "\<forall>g \<in> set paras. translated g \<longrightarrow> apart (anchor g) (anchor f)"
    using assms(2,4) by (auto simp: translated_def)
  from rewrite_loop_frame [OF this, of paras body "[]"] assms(3)
  have "get_node (fst (foldl (rewrite_para paras) (body, []) paras)) (anchor f) = Some sub"
    by simp
  from cleanup_keeps_place [OF this assms(5)] show ?thesis by (simp add: rewrite_document_def)
qed


lemma attribute_br_seen:
  "innerHTML_has_br
     (Element ''p'' [] [Element ''a'' [(''title'', js ''<br'')] [Text (js ''x'')]])"
  by (simp add: innerHTML_has_br_def js_def)

lemma js_simps:
  "js ''Hello'' = [72, 101, 108, 108, 111]"
  "js ''World'' = [87, 111, 114, 108, 100]"
  "js ''Bonjour'' = [66, 111, 110, 106, 111, 117, 114]"
  by (simp_all add: js_def)

lemma trim_words:
  "js_trim (js ''Hello'') = js ''Hello''" "js_trim (js ''World'') = js ''World''"
  "js_trim (js ''Hello'' @ js ''World'') = js ''Hello'' @ js ''World''"
  "js_trim (js ''Bonjour'') = js ''Bonjour''"
  "\<not> blank (js ''Hello'')" "\<not> blank (js ''World'')"
  by (simp_all add: js_simps js_trim_def is_js_space_def blank_def)

lemma two_stanzas_walker: "walker_nodes two_stanzas = [[0, 0], [0, 2]]"
  by (simp add: walker_nodes_def two_stanzas_def acceptNode_def text_at_def tag_at_def
      trim_words)

lemma two_stanzas_block:
  "find_block two_stanzas (butlast [0, 0]) = Some [0]"
  "find_block two_stanzas (butlast [0, 2]) = Some [0]"
  "find_block two_stanzas [0] = Some [0]"
  by (simp_all add: find_block.simps two_stanzas_def tag_at_def BLOCK_TAGS_def)

lemma two_stanzas_br_paragraphs:
  "br_paragraphs [Text (js ''Hello''), Element ''br'' [] [], Text (js ''World'')] =
     [js ''Hello'', js ''World'']"
  by (simp add: br_paragraphs_def trim_words blank_Nil)

lemma two_stanzas_visit_first:
  "visit_text_node two_stanzas ([], []) [0, 0] =
     ([[0]], push_block [0] (js ''World'') (js ''World'')
               (push_block [0] (js ''Hello'') (js ''Hello'') []))"
proof -
  have g: "get_node two_stanzas [0] =
      Some (Element ''p'' [] [Text (js ''Hello''), Element ''br'' [] [], Text (js ''World'')])"
    by (simp add: two_stanzas_def)
  have t: "text_at two_stanzas [0, 0] = js ''Hello''"
    "text_at two_stanzas [0] = js ''Hello'' @ js ''World''"
    by (simp_all add: text_at_def two_stanzas_def)
  have h: "innerHTML_has_br (Element ''p'' [] [Text (js ''Hello''), Element ''br'' [] [], Text (js ''World'')])"
    by (simp add: innerHTML_has_br_def)
  have l: "0 < length (js ''Hello'')" "1 \<le> length (js ''Hello'')" "1 \<le> length (js ''World'')"
    "1 \<le> length (js ''Hello'' @ js ''World'')"
    by (simp_all add: js_simps)
  show ?thesis
    unfolding visit_text_node_def
    by (simp only: Let_def prod.case t trim_words l two_stanzas_block g h option.case
        two_stanzas_br_paragraphs children_def node.case list.set empty_iff not_False_eq_True
        if_True simp_thms foldl.simps)
qed

lemma two_stanzas_visit_second:
  "visit_text_node two_stanzas ([[0]], ps) [0, 2] = ([[0]], ps)"
proof -
  have t: "text_at two_stanzas [0, 2] = js ''World''"
    by (simp add: text_at_def two_stanzas_def)
  have l: "0 < length (js ''World'')" by (simp add: js_simps)
  show ?thesis
    unfolding visit_text_node_def
    by (simp add: t trim_words l two_stanzas_block Let_def)
qed

lemma two_stanzas_extract:
  "extract_paragraphs two_stanzas =
     [\<lparr>element = [0], originalText = js ''Hello'', rawText = js ''Hello'', index = 0,
       skipReason = None, textNode = None, isInline = False, translatedText = None\<rparr>,
      \<lparr>element = [0], originalText = js ''World'', rawText = js ''World'', index = 1,
       skipReason = None, textNode = None, isInline = False, translatedText = None\<rparr>]"
  by (simp add: extract_paragraphs_def two_stanzas_walker two_stanzas_visit_first
      two_stanzas_visit_second push_block_def)

lemma half_translated_eq:
  "half_translated =
     [\<lparr>element = [0], originalText = js ''Hello'', rawText = js ''Hello'', index = 0,
       skipReason = None, textNode = None, isInline = False,
       translatedText = Some (js ''Bonjour'')\<rparr>,
      \<lparr>element = [0], originalText = js ''World'', rawText = js ''World'', index = 1,
       skipReason = Some (shortfall_reason 1 2), textNode = None, isInline = False,
       translatedText = None\<rparr>]"
  by (simp add: half_translated_def two_stanzas_extract assign_zhipu_def Let_def
      enumerate_eq_zip upt_rec numeral_2_eq_2)

lemma words_not_metadata: "\<not> hasMetadata (js ''Bonjour'')" "\<not> hasMetadata (js ''World'')"
  by (simp_all add: hasMetadata_def includes_ci_def js_def to_lower_def)

lemma apart_anchor_kept_example:
  "\<exists>a'. get_node (rewrite_document first_translated two_blocks) a' =
          Some (Element ''p'' [] [Text (js ''World'')])"
proof -
  have m: "para_of 1 (js ''World'') \<in> set first_translated"
    by (simp add: first_translated_def)
  have u: "untranslated (para_of 1 (js ''World''))"
    by (simp add: untranslated_def para_of_def)
  have a: "anchor (para_of 1 (js ''World'')) = [1]"
    by (simp add: anchor_def para_of_def)
  have g: "get_node two_blocks (anchor (para_of 1 (js ''World''))) =
      Some (Element ''p'' [] [Text (js ''World'')])"
    unfolding a by (simp add: two_blocks_def)
  have ap: "\<forall>g \<in> set first_translated. g \<noteq> para_of 1 (js ''World'') \<and> translated g \<longrightarrow>
      apart (anchor g) (anchor (para_of 1 (js ''World'')))"
    unfolding a
    by (simp add: first_translated_def anchor_def para_of_def apart_def)
  have nm: "no_metadata (Element ''p'' [] [Text (js ''World'')])"
    by (simp add: metadata_node_def trim_words words_not_metadata)
  from apart_anchor_kept [OF m u g ap nm] show ?thesis by blast
qed

text \<open>
  C1 fails on the code where fragments share an anchor. A paragraph of two stanzas
  separated by a line break gives two fragments anchored to the one element. When only
  the first is translated, the rewriter collects the translated fragments of the element
  and replaces the element's content by them alone: the second stanza, which has no
  translated text, is no longer in the document that is serialised.
\<close>

theorem untranslated_stanza_lost:
  "untranslated (half_translated ! 1) \<and>
   originalText (half_translated ! 1) = js ''World'' \<and>
   element (half_translated ! 1) = [0] \<and>
   get_node two_stanzas [0, 2] = Some (Text (js ''World'')) \<and>
   rewrite_document half_translated two_stanzas =
     Element ''body'' [] [Element ''p'' [] [Text (js ''Bonjour'')]]"
proof -
  have tr: "translated (half_translated ! 0)" "\<not> translated (half_translated ! Suc 0)"
    by (simp_all add: half_translated_eq translated_def untranslated_def js_simps)
  have g: "get_node two_stanzas [0] =
      Some (Element ''p'' [] [Text (js ''Hello''), Element ''br'' [] [], Text (js ''World'')])"
    by (simp add: two_stanzas_def)
  have h: "innerHTML_has_br (Element ''p'' [] [Text (js ''Hello''), Element ''br'' [] [], Text (js ''World'')])"
    by (simp add: innerHTML_has_br_def)
  have f: "filter (\<lambda>p. translated p \<and> element p = [0]) half_translated = [half_translated ! 0]"
    using tr by (simp add: half_translated_eq)
  have e0: "element (half_translated ! 0) = [0]" "textNode (half_translated ! 0) = None"
    "translation_of (half_translated ! 0) = js ''Bonjour''"
    by (simp_all add: half_translated_eq translation_of_def)
  have s1: "rewrite_para half_translated (two_stanzas, []) (half_translated ! 0) =
      (Element ''body'' [] [Element ''p'' [] [Text (js ''Bonjour'')]], [[0]])"
    using tr(1) e0
    by (simp add: rewrite_para_def Let_def f detached_def g h text_child_def)
       (simp add: two_stanzas_def set_children_def js_simps text_child_def)
  have s2: "rewrite_para half_translated (b, r) (half_translated ! Suc 0) = (b, r)" for b r
    using tr(2) by (simp add: rewrite_para_def)
  have l: "half_translated = [half_translated ! 0, half_translated ! Suc 0]"
    by (simp add: half_translated_eq)
  have "foldl (rewrite_para half_translated) (two_stanzas, []) half_translated =
      (Element ''body'' [] [Element ''p'' [] [Text (js ''Bonjour'')]], [[0]])"
    by (subst (2) l) (simp add: s1 s2)
  moreover have "\<not> metadata_node (Text (js ''Bonjour''))"
    by (simp add: metadata_node_def words_not_metadata trim_words)
  ultimately have "rewrite_document half_translated two_stanzas =
     Element ''body'' [] [Element ''p'' [] [Text (js ''Bonjour'')]]"
    by (simp add: rewrite_document_def metadata_node_def)
  moreover have "untranslated (half_translated ! Suc 0)" using tr(2) by (simp add: translated_def)
  ultimately show ?thesis
    by (simp add: half_translated_eq two_stanzas_def)
qed

text \<open>
  The removal of metadata is applied to every text node: original text that matches a
  pattern is removed although its fragment was never translated.
\<close>

lemma metadata_text_removed:
  "rewrite_document [para_of 0 (js ''Excerpt from my diary''), para_of 1 (js ''Hello'')]
     excerpt_doc =
   Element ''body'' [] [Element ''p'' [] [], Element ''p'' [] [Text (js ''Hello'')]]"
proof -
  have u: "\<not> translated (para_of i t)" for i t
    by (simp add: translated_def untranslated_def para_of_def)
  have 1: "metadata_node (Text (js ''Excerpt from my diary''))"
    by (simp add: metadata_node_def hasMetadata_def includes_ci_def js_def to_lower_def
        js_trim_def is_js_space_def)
  have 2: "\<not> metadata_node (Text (js ''Hello''))"
    by (simp add: metadata_node_def hasMetadata_def includes_ci_def js_def to_lower_def
        js_trim_def is_js_space_def)
  have k: "fst (foldl (rewrite_para [para_of 0 (js ''Excerpt from my diary''), para_of 1 (js ''Hello'')])
     (excerpt_doc, []) [para_of 0 (js ''Excerpt from my diary''), para_of 1 (js ''Hello'')]) =
     excerpt_doc"
    by (simp add: rewrite_para_def u)
  have 3: "\<not> metadata_node (Element t atts cs)" for t atts cs
    by (simp add: metadata_node_def)
  show ?thesis
    unfolding rewrite_document_def k by (simp add: excerpt_doc_def 1 2 3)
qed


end
